theory Spec2Isabelle
  imports Main "HOL-Library.Product_Lexorder" "HOL-Library.List_Lexorder" "HOL-Library.Char_ord" "HOL-Library.Sublist"
begin

section \<open>The no-unsafe-any rule of typescript-eslint\<close>

text \<open>
  A shallow embedding of \<^verbatim>\<open>packages/eslint-plugin/src/rules/no-unsafe-any.ts\<close>: the
  syntax tree the rule reads, the type checker it consults, the sixteen listeners that
  \<^verbatim>\<open>create\<close> returns, the selectors that decide where each listener runs, and the
  traversal that runs them.
\<close>

subsection \<open>Syntax trees\<close>

text \<open>
  \<^verbatim>\<open>TSESTree.Node\<close> is a tagged union; each node type the rule or one of its selectors
  names is a constructor. Its arguments are the fields that hold child nodes, all of those
  the host visits and in the order of the parser's visitor keys (for an arrow function
  \<^verbatim>\<open>typeParameters\<close>, \<^verbatim>\<open>params\<close>, \<^verbatim>\<open>returnType\<close>, \<^verbatim>\<open>body\<close>), and the properties
  that are not nodes where the rule or a selector reads them (the name of an identifier,
  the raw text of a literal, the kind of a declaration). An absent \<^verbatim>\<open>decorators\<close> array
  is the empty list. Every other node type is \<open>Other\<close>, with its type name and its child
  nodes in visiting order. An array field may have holes (\<^verbatim>\<open>const [, x] = v\<close> has
  \<^verbatim>\<open>elements = [null, x]\<close>), hence \<open>node option list\<close>.
\<close>

datatype node =
    Identifier "node list" string "node option"
  | Literal string
  | TSTypeAnnotation node
  | TSUnknownKeyword
  | TSTypeReference node "node option"
  | ObjectPattern "node list" "node list" "node option"
  | Property node node
  | RestElement "node list" node "node option"
  | ArrayPattern "node list" "node option list" "node option"
  | VariableDeclaration string "node list"
  | VariableDeclarator node "node option"
  | ArrayExpression "node option list"
  | ForOfStatement node node node
  | ReturnStatement "node option"
  | ArrowFunctionExpression "node option" "node list" "node option" node
  | BlockStatement "node list"
  | CallExpression node "node option" "node list"
  | AssignmentExpression node node
  | UpdateExpression node
  | IfStatement node node "node option"
  | WhileStatement node node
  | DoWhileStatement node node
  | ConditionalExpression node node node
  | SwitchStatement node "node list"
  | SwitchCase "node option" "node list"
  | Other string "node list"

text \<open>The \<^verbatim>\<open>type\<close> property of a node.\<close>

fun ntype :: "node \<Rightarrow> string" where
  "ntype (Identifier decs nm ta) = ''Identifier''"
| "ntype (Literal raw) = ''Literal''"
| "ntype (TSTypeAnnotation t) = ''TSTypeAnnotation''"
| "ntype TSUnknownKeyword = ''TSUnknownKeyword''"
| "ntype (TSTypeReference nm ps) = ''TSTypeReference''"
| "ntype (ObjectPattern decs props ta) = ''ObjectPattern''"
| "ntype (Property k v) = ''Property''"
| "ntype (RestElement decs a ta) = ''RestElement''"
| "ntype (ArrayPattern decs els ta) = ''ArrayPattern''"
| "ntype (VariableDeclaration k ds) = ''VariableDeclaration''"
| "ntype (VariableDeclarator i e) = ''VariableDeclarator''"
| "ntype (ArrayExpression els) = ''ArrayExpression''"
| "ntype (ForOfStatement l r b) = ''ForOfStatement''"
| "ntype (ReturnStatement a) = ''ReturnStatement''"
| "ntype (ArrowFunctionExpression tps ps rt b) = ''ArrowFunctionExpression''"
| "ntype (BlockStatement b) = ''BlockStatement''"
| "ntype (CallExpression c tps as) = ''CallExpression''"
| "ntype (AssignmentExpression l r) = ''AssignmentExpression''"
| "ntype (UpdateExpression a) = ''UpdateExpression''"
| "ntype (IfStatement t c a) = ''IfStatement''"
| "ntype (WhileStatement t b) = ''WhileStatement''"
| "ntype (DoWhileStatement b t) = ''DoWhileStatement''"
| "ntype (ConditionalExpression t c a) = ''ConditionalExpression''"
| "ntype (SwitchStatement d cs) = ''SwitchStatement''"
| "ntype (SwitchCase t c) = ''SwitchCase''"
| "ntype (Other ty cs) = ty"

text \<open>
  A node is an object, and two nodes of the same shape at different places are different
  nodes. The model identifies a node with the property accesses that lead to it from the
  root: \<^verbatim>\<open>root.body[0].declarations[1].init\<close> is
  \<open>[Elt ''body'' 0, Elt ''declarations'' 1, Fld ''init'']\<close>.
\<close>

datatype step = Fld string | Elt string nat

type_synonym path = "step list"

fun field_of :: "step \<Rightarrow> string" where
  "field_of (Fld f) = f"
| "field_of (Elt f i) = f"

definition single :: "string \<Rightarrow> node \<Rightarrow> (step \<times> node) list" where
  "single f n = [(Fld f, n)]"

definition opt :: "string \<Rightarrow> node option \<Rightarrow> (step \<times> node) list" where
  "opt f n = (case n of None \<Rightarrow> [] | Some c \<Rightarrow> [(Fld f, c)])"

definition arr :: "string \<Rightarrow> node list \<Rightarrow> (step \<times> node) list" where
  "arr f ns = map (\<lambda>(i, c). (Elt f i, c)) (enumerate 0 ns)"

definition holes :: "string \<Rightarrow> node option list \<Rightarrow> (step \<times> node) list" where
  "holes f ns =
     concat (map (\<lambda>(i, c). case c of None \<Rightarrow> [] | Some c' \<Rightarrow> [(Elt f i, c')]) (enumerate 0 ns))"

text \<open>The child nodes of a node, each with the step that reaches it, in visiting order.\<close>

fun children :: "node \<Rightarrow> (step \<times> node) list" where
  "children (Identifier decs nm ta) = arr ''decorators'' decs @ opt ''typeAnnotation'' ta"
| "children (Literal raw) = []"
| "children (TSTypeAnnotation t) = single ''typeAnnotation'' t"
| "children TSUnknownKeyword = []"
| "children (TSTypeReference nm ps) = single ''typeName'' nm @ opt ''typeParameters'' ps"
| "children (ObjectPattern decs props ta) =
     arr ''decorators'' decs @ arr ''properties'' props @ opt ''typeAnnotation'' ta"
| "children (Property k v) = single ''key'' k @ single ''value'' v"
| "children (RestElement decs a ta) =
     arr ''decorators'' decs @ single ''argument'' a @ opt ''typeAnnotation'' ta"
| "children (ArrayPattern decs els ta) =
     arr ''decorators'' decs @ holes ''elements'' els @ opt ''typeAnnotation'' ta"
| "children (VariableDeclaration k ds) = arr ''declarations'' ds"
| "children (VariableDeclarator i e) = single ''id'' i @ opt ''init'' e"
| "children (ArrayExpression els) = holes ''elements'' els"
| "children (ForOfStatement l r b) = single ''left'' l @ single ''right'' r @ single ''body'' b"
| "children (ReturnStatement a) = opt ''argument'' a"
| "children (ArrowFunctionExpression tps ps rt b) =
     opt ''typeParameters'' tps @ arr ''params'' ps @ opt ''returnType'' rt @ single ''body'' b"
| "children (BlockStatement b) = arr ''body'' b"
| "children (CallExpression c tps as) =
     single ''callee'' c @ opt ''typeParameters'' tps @ arr ''arguments'' as"
| "children (AssignmentExpression l r) = single ''left'' l @ single ''right'' r"
| "children (UpdateExpression a) = single ''argument'' a"
| "children (IfStatement t c a) = single ''test'' t @ single ''consequent'' c @ opt ''alternate'' a"
| "children (WhileStatement t b) = single ''test'' t @ single ''body'' b"
| "children (DoWhileStatement b t) = single ''body'' b @ single ''test'' t"
| "children (ConditionalExpression t c a) =
     single ''test'' t @ single ''consequent'' c @ single ''alternate'' a"
| "children (SwitchStatement d cs) = single ''discriminant'' d @ arr ''cases'' cs"
| "children (SwitchCase t c) = opt ''test'' t @ arr ''consequent'' c"
| "children (Other ty cs) = arr ''children'' cs"

text \<open>
  \<^verbatim>\<open>node.f\<close> for a field that holds a node: \<open>None\<close> is JavaScript's
  \<^verbatim>\<open>null\<close> or \<^verbatim>\<open>undefined\<close>.
\<close>

definition get :: "node \<Rightarrow> string \<Rightarrow> node option" where
  "get n f = map_of (children n) (Fld f)"

text \<open>\<^verbatim>\<open>parent.kind\<close>, the keyword of a declaration.\<close>

fun kind_of :: "node \<Rightarrow> string option" where
  "kind_of (VariableDeclaration k ds) = Some k"
| "kind_of _ = None"

subsection \<open>The type checker, the options and the reports\<close>

text \<open>
  Modelled from the spec: the TypeScript checker and \<^verbatim>\<open>util.isTypeFlagSet\<close> are not
  part of the rule. The spec's TypeDescriptor has three outcomes, and the rule asks two
  questions of it: whether the type at a node is \<^verbatim>\<open>any\<close> (\<open>Dynamic\<close>), and whether it
  is an array type whose element type is \<^verbatim>\<open>any\<close> (\<open>DynamicArray\<close>).
\<close>

datatype type_desc = Concrete | Dynamic | DynamicArray

text \<open>
  What \<^verbatim>\<open>create(context, [{ allowVariableAnnotationFromAny }])\<close> closes over:
  \<open>checker\<close> is \<^verbatim>\<open>checker.getTypeAtLocation(esTreeNodeToTSNodeMap.get(node))\<close> and
  \<open>getText\<close> is \<^verbatim>\<open>sourceCode.getText(node)\<close>, both keyed by the node.
\<close>

record env =
  checker :: "path \<Rightarrow> type_desc"
  getText :: "path \<Rightarrow> string"
  allowVariableAnnotationFromAny :: bool

definition isAnyType :: "env \<Rightarrow> path \<Rightarrow> bool" where
  "isAnyType env tsNode = (checker env tsNode = Dynamic)"

definition isAnyArrayType :: "env \<Rightarrow> path \<Rightarrow> bool" where
  "isAnyArrayType env tsNode = (checker env tsNode = DynamicArray)"

definition isAnyOrAnyArrayType :: "env \<Rightarrow> path \<Rightarrow> bool" where
  "isAnyOrAnyArrayType env tsNode = (isAnyType env tsNode \<or> isAnyArrayType env tsNode)"

text \<open>
  The argument of \<^verbatim>\<open>context.report\<close>. A value of \<open>data\<close> is \<open>None\<close> where the
  JavaScript expression that computes it yields \<^verbatim>\<open>undefined\<close>.
\<close>

record diag =
  anchor :: path
  messageId :: string
  data :: "(string \<times> string option) list"

text \<open>
  A listener reports to the host and may throw. The reports the host holds are the state;
  a listener takes them and returns them extended, or the error it threw.
\<close>

datatype error = TypeError | NonNullAssertionFailed string string

type_synonym action = "diag list \<Rightarrow> error + diag list"

definition report :: "diag \<Rightarrow> action" where
  "report d = (\<lambda>s. Inr (s @ [d]))"

definition skip :: action where
  "skip = (\<lambda>s. Inr s)"

definition throw :: "error \<Rightarrow> action" where
  "throw e = (\<lambda>s. Inl e)"

definition andThen :: "action \<Rightarrow> action \<Rightarrow> action" where
  "andThen a b = (\<lambda>s. case a s of Inl e \<Rightarrow> Inl e | Inr s' \<Rightarrow> b s')"

primrec forEach :: "('a \<Rightarrow> action) \<Rightarrow> 'a list \<Rightarrow> action" where
  "forEach f [] = skip"
| "forEach f (x # xs) = andThen (f x) (forEach f xs)"

lemma forEach_cong [fundef_cong]:
  "xs = ys \<Longrightarrow> (\<And>x. x \<in> set ys \<Longrightarrow> f x = g x) \<Longrightarrow> forEach f xs = forEach g ys"
  by (induction ys arbitrary: xs) auto

subsection \<open>The messages\<close>

text \<open>The type \<^verbatim>\<open>MessageIds\<close>: the message identifiers the rule may report.\<close>

definition MessageIds :: "string list" where
  "MessageIds =
     [''typeReferenceResolvesToAny'',
      ''variableDeclarationInitialisedToAnyWithoutAnnotation'',
      ''variableDeclarationInitialisedToAnyWithAnnotation'',
      ''patternVariableDeclarationInitialisedToAny'',
      ''letVariableInitialisedToNullishAndNoAnnotation'',
      ''letVariableWithNoInitialAndNoAnnotation'',
      ''loopVariableInitialisedToAny'',
      ''returnAny'',
      ''passedArgumentIsAny'',
      ''assignmentValueIsAny'',
      ''updateExpressionIsAny'',
      ''booleanTestIsAny'',
      ''switchDiscriminantIsAny'',
      ''switchCaseTestIsAny'']"

text \<open>\<^verbatim>\<open>meta.messages\<close>: the template of each message, in the order of the source.\<close>

definition messages :: "(string \<times> string) list" where
  "messages =
     [(''typeReferenceResolvesToAny'',
       ''Referenced type {{typeName}} resolves to `any`.''),
      (''variableDeclarationInitialisedToAnyWithAnnotation'',
       ''Variable declaration is initialised to `any` with an explicit type annotation, which is potentially unsafe. Prefer explicit type narrowing via type guards.''),
      (''variableDeclarationInitialisedToAnyWithoutAnnotation'',
       ''Variable declaration is initialised to `any` without a type annotation.''),
      (''patternVariableDeclarationInitialisedToAny'',
       ''Variable declaration is initialised to `any`.''),
      (''letVariableInitialisedToNullishAndNoAnnotation'',
       ''Variable declared with {{kind}} and initialised to `null` or `undefined` is implicitly typed as `any`. Add an explicit type annotation.''),
      (''letVariableWithNoInitialAndNoAnnotation'',
       ''Variable declared with {{kind}} with no initial value is implicitly typed as `any`.''),
      (''loopVariableInitialisedToAny'', ''Loop variable is typed as `any`.''),
      (''returnAny'', ''The type of the return is `any`.''),
      (''passedArgumentIsAny'', ''The passed argument is `any`.''),
      (''assignmentValueIsAny'', ''The value being assigned is `any`.''),
      (''updateExpressionIsAny'', ''The update expression variable is `any`.''),
      (''booleanTestIsAny'', ''The {{kind}} test is `any`.''),
      (''switchDiscriminantIsAny'', ''The switch discriminant is `any`.''),
      (''switchCaseTestIsAny'', ''The switch case test is `any`.'')]"

text \<open>
  The host fills each \<^verbatim>\<open>{{name}}\<close> of a template from the data of the report.
  \<open>placeholders\<close> lists the names a template asks for, and \<open>required_data\<close> those of a
  message identifier.
\<close>

function placeholders :: "string \<Rightarrow> string list" where
  "placeholders [] = []"
| "placeholders [c] = []"
| "placeholders (c # c' # cs) =
     (if c = CHR ''{'' \<and> c' = CHR ''{''
      then takeWhile (\<lambda>x. x \<noteq> CHR ''}'') cs # placeholders (dropWhile (\<lambda>x. x \<noteq> CHR ''}'') cs)
      else placeholders (c' # cs))"
  by pat_completeness auto
termination
  by (relation "measure length") (auto simp: length_dropWhile_le less_Suc_eq_le le_SucI)

definition required_data :: "string \<Rightarrow> string list" where
  "required_data m = (case map_of messages m of None \<Rightarrow> [] | Some t \<Rightarrow> placeholders t)"

subsection \<open>Helpers of the rule\<close>

text \<open>
  Modelled from the spec: \<^verbatim>\<open>util.isNullLiteral\<close> and \<^verbatim>\<open>util.isUndefinedIdentifier\<close>
  live in \<^verbatim>\<open>../util\<close>; the spec has them as "the initializer is literally null or the
  undefined identifier".
\<close>

fun isNullLiteral :: "node \<Rightarrow> bool" where
  "isNullLiteral (Literal raw) = (raw = ''null'')"
| "isNullLiteral _ = False"

fun isUndefinedIdentifier :: "node \<Rightarrow> bool" where
  "isUndefinedIdentifier (Identifier decs nm ta) = (nm = ''undefined'')"
| "isUndefinedIdentifier _ = False"

text \<open>
  \<^verbatim>\<open>reportVariableDeclarationInitialisedToAny(node)\<close>, with \<open>p\<close> the declarator's
  place. Reading a property of \<^verbatim>\<open>undefined\<close> throws a TypeError.
\<close>

definition reportVariableDeclarationInitialisedToAny :: "env \<Rightarrow> path \<Rightarrow> node \<Rightarrow> action" where
  "reportVariableDeclarationInitialisedToAny env p node =
     (case get node ''id'' of
        None \<Rightarrow> throw TypeError
      | Some ident \<Rightarrow>
          (case get ident ''typeAnnotation'' of
             None \<Rightarrow>
               report \<lparr>anchor = p,
                       messageId = ''variableDeclarationInitialisedToAnyWithoutAnnotation'',
                       data = []\<rparr>
           | Some ann \<Rightarrow>
               if allowVariableAnnotationFromAny env then skip
               else (case get ann ''typeAnnotation'' of
                       None \<Rightarrow> throw TypeError
                     | Some ty \<Rightarrow>
                         if ntype ty = ''TSUnknownKeyword'' then skip
                         else report \<lparr>anchor = p,
                                      messageId = ''variableDeclarationInitialisedToAnyWithAnnotation'',
                                      data = []\<rparr>)))"

lemma get_smaller: "get n f = Some c \<Longrightarrow> size c < size n"
  by (cases n) (auto simp: get_def single_def opt_def arr_def holes_def
      split: option.splits if_splits dest!: map_of_SomeD)

lemma nth_size_le: "i < length xs \<Longrightarrow> f (xs ! i) \<le> size_list f xs"
  by (rule size_list_estimation') auto

text \<open>
  \<^verbatim>\<open>checkDestructuringPattern(node)\<close>. Its argument is \<open>None\<close> when the caller passes
  the \<^verbatim>\<open>null\<close> of a hole; \<^verbatim>\<open>node.type\<close> then throws.
\<close>

function checkDestructuringPattern :: "env \<Rightarrow> path \<Rightarrow> node option \<Rightarrow> action" where
  "checkDestructuringPattern env p None = throw TypeError"
| "checkDestructuringPattern env p (Some node) =
     (case node of
        ObjectPattern decs props ta \<Rightarrow>
          forEach (\<lambda>(i, prop).
              case get prop ''value'' of
                Some v \<Rightarrow>
                  checkDestructuringPattern env (p @ [Elt ''properties'' i, Fld ''value'']) (Some v)
              | None \<Rightarrow> checkDestructuringPattern env (p @ [Elt ''properties'' i]) (Some prop))
            (enumerate 0 props)
      | ArrayPattern decs els ta \<Rightarrow>
          forEach (\<lambda>(i, el). checkDestructuringPattern env (p @ [Elt ''elements'' i]) el)
            (enumerate 0 els)
      | _ \<Rightarrow>
          if isAnyOrAnyArrayType env p
          then report \<lparr>anchor = p, messageId = ''patternVariableDeclarationInitialisedToAny'',
                       data = []\<rparr>
          else skip)"
  by pat_completeness auto

termination
proof (relation "measure (\<lambda>(env, p, n). size_option size n)", goal_cases)
  case 1
  show ?case by simp
next
  case (2 env p node decs props ta ip i pr)
  then have "size pr \<le> size_list size props"
    by (auto simp: in_set_enumerate_eq nth_size_le)
  then show ?case using 2 by simp
next
  case (3 env p node decs props ta ip i pr v)
  then have "size pr \<le> size_list size props"
    by (auto simp: in_set_enumerate_eq nth_size_le)
  moreover have "size v < size pr"
    using 3 by (simp add: get_smaller)
  ultimately show ?case using 3 by simp
next
  case (4 env p node decs els ta ip i el)
  then have "size_option size el \<le> size_list (size_option size) els"
    by (auto simp: in_set_enumerate_eq nth_size_le)
  then show ?case using 4 by simp
qed

declare checkDestructuringPattern.simps [simp del]

subsection \<open>The listeners\<close>

text \<open>
  Each listener of the object \<^verbatim>\<open>create\<close> returns, in the order of the source. A listener
  receives the node; the model passes the node \<open>node\<close>, its place \<open>p\<close> and its ancestors
  \<open>anc\<close>, nearest first, so that \<^verbatim>\<open>node.parent\<close> is the head of \<open>anc\<close>, at place
  \<open>butlast p\<close>.
\<close>

type_synonym listener = "env \<Rightarrow> node list \<Rightarrow> path \<Rightarrow> node \<Rightarrow> action"

definition TSTypeReference_listener :: listener where
  "TSTypeReference_listener env anc p node =
     (if \<not> isAnyType env p then skip
      else report \<lparr>anchor = p, messageId = ''typeReferenceResolvesToAny'',
                   data = [(''typeName'', Some (getText env p))]\<rparr>)"

definition letNoInit_listener :: listener where
  "letNoInit_listener env anc p node =
     (case get node ''id'' of
        None \<Rightarrow> throw TypeError
      | Some ident \<Rightarrow>
          if get ident ''typeAnnotation'' \<noteq> None then skip
          else (case anc of
                  [] \<Rightarrow> throw TypeError
                | parent # _ \<Rightarrow>
                    report \<lparr>anchor = p, messageId = ''letVariableWithNoInitialAndNoAnnotation'',
                            data = [(''kind'', kind_of parent)]\<rparr>))"

definition letNullish_listener :: listener where
  "letNullish_listener env anc p node =
     (case get node ''id'' of
        None \<Rightarrow> throw TypeError
      | Some ident \<Rightarrow>
          if get ident ''typeAnnotation'' \<noteq> None then skip
          else (case get node ''init'' of
                  None \<Rightarrow> skip
                | Some init \<Rightarrow>
                    if isNullLiteral init \<or> isUndefinedIdentifier init
                    then (case anc of
                            [] \<Rightarrow> throw TypeError
                          | parent # _ \<Rightarrow>
                              report \<lparr>anchor = p,
                                      messageId = ''letVariableInitialisedToNullishAndNoAnnotation'',
                                      data = [(''kind'', kind_of parent)]\<rparr>)
                    else skip))"

definition identifierId_listener :: listener where
  "identifierId_listener env anc p node =
     (case anc of
        [] \<Rightarrow> throw TypeError
      | parent # _ \<Rightarrow>
          (case get parent ''init'' of
             None \<Rightarrow> skip
           | Some init \<Rightarrow>
               let tsNode = butlast p @ [Fld ''init''] in
               if \<not> isAnyType env tsNode \<and> \<not> isAnyArrayType env tsNode then skip
               else reportVariableDeclarationInitialisedToAny env (butlast p) parent))"

definition emptyArrayInit_listener :: listener where
  "emptyArrayInit_listener env anc p node =
     (case anc of
        [] \<Rightarrow> throw TypeError
      | parent # _ \<Rightarrow>
          (case get parent ''id'' of
             None \<Rightarrow> throw TypeError
           | Some ident \<Rightarrow>
               if get ident ''typeAnnotation'' \<noteq> None then skip
               else report \<lparr>anchor = butlast p,
                            messageId = ''variableDeclarationInitialisedToAnyWithoutAnnotation'',
                            data = []\<rparr>))"

definition objectPatternId_listener :: listener where
  "objectPatternId_listener env anc p node =
     (case anc of
        [] \<Rightarrow> throw TypeError
      | parent # _ \<Rightarrow>
          (case get parent ''init'' of
             None \<Rightarrow> skip
           | Some init \<Rightarrow>
               let tsNode = butlast p @ [Fld ''init''] in
               if isAnyOrAnyArrayType env tsNode
               then reportVariableDeclarationInitialisedToAny env (butlast p) parent
               else checkDestructuringPattern env p (Some node)))"

definition arrayPatternId_listener :: listener where
  "arrayPatternId_listener env anc p node =
     (case anc of
        [] \<Rightarrow> throw TypeError
      | parent # _ \<Rightarrow>
          (case get parent ''init'' of
             None \<Rightarrow> skip
           | Some init \<Rightarrow>
               let tsNode = butlast p @ [Fld ''init''] in
               if isAnyOrAnyArrayType env tsNode
               then reportVariableDeclarationInitialisedToAny env (butlast p) parent
               else checkDestructuringPattern env p (Some node)))"

definition forOf_listener :: listener where
  "forOf_listener env anc p node =
     (if isAnyOrAnyArrayType env p
      then report \<lparr>anchor = p, messageId = ''loopVariableInitialisedToAny'', data = []\<rparr>
      else skip)"

definition returnStatement_listener :: listener where
  "returnStatement_listener env anc p node =
     (case get node ''argument'' of
        None \<Rightarrow> throw (NonNullAssertionFailed ''argument'' ''ReturnStatement'')
      | Some argument \<Rightarrow>
          let tsNode = p @ [Fld ''argument''] in
          if isAnyOrAnyArrayType env tsNode
          then report \<lparr>anchor = p, messageId = ''returnAny'', data = []\<rparr>
          else skip)"

definition arrowBody_listener :: listener where
  "arrowBody_listener env anc p node =
     (if isAnyOrAnyArrayType env p
      then report \<lparr>anchor = p, messageId = ''returnAny'', data = []\<rparr>
      else skip)"

definition callExpression_listener :: listener where
  "callExpression_listener env anc p node =
     (case node of
        CallExpression callee typeParameters arguments \<Rightarrow>
          forEach (\<lambda>(i, argument).
              let tsNode = p @ [Elt ''arguments'' i] in
              if isAnyOrAnyArrayType env tsNode
              then report \<lparr>anchor = p @ [Elt ''arguments'' i], messageId = ''passedArgumentIsAny'',
                           data = []\<rparr>
              else skip)
            (enumerate 0 arguments)
      | _ \<Rightarrow> throw TypeError)"

definition assignmentExpression_listener :: listener where
  "assignmentExpression_listener env anc p node =
     (case get node ''right'' of
        None \<Rightarrow> throw TypeError
      | Some right \<Rightarrow>
          let tsNode = p @ [Fld ''right''] in
          if isAnyOrAnyArrayType env tsNode
          then report \<lparr>anchor = p, messageId = ''assignmentValueIsAny'', data = []\<rparr>
          else skip)"

definition updateExpression_listener :: listener where
  "updateExpression_listener env anc p node =
     (case get node ''argument'' of
        None \<Rightarrow> throw TypeError
      | Some argument \<Rightarrow>
          let tsNode = p @ [Fld ''argument''] in
          if isAnyType env tsNode
          then report \<lparr>anchor = p, messageId = ''updateExpressionIsAny'', data = []\<rparr>
          else skip)"

definition typeToText :: "(string \<times> string) list" where
  "typeToText =
     [(''IfStatement'', ''if''),
      (''WhileStatement'', ''while''),
      (''DoWhileStatement'', ''do while''),
      (''ConditionalExpression'', ''ternary'')]"

definition booleanTest_listener :: listener where
  "booleanTest_listener env anc p node =
     (case get node ''test'' of
        None \<Rightarrow> throw TypeError
      | Some test \<Rightarrow>
          let tsNode = p @ [Fld ''test''] in
          if isAnyOrAnyArrayType env tsNode
          then report \<lparr>anchor = p @ [Fld ''test''], messageId = ''booleanTestIsAny'',
                       data = [(''kind'', map_of typeToText (ntype node))]\<rparr>
          else skip)"

definition switchStatement_listener :: listener where
  "switchStatement_listener env anc p node =
     (case get node ''discriminant'' of
        None \<Rightarrow> throw TypeError
      | Some discriminant \<Rightarrow>
          let tsNode = p @ [Fld ''discriminant''] in
          if isAnyOrAnyArrayType env tsNode
          then report \<lparr>anchor = p @ [Fld ''discriminant''],
                       messageId = ''switchDiscriminantIsAny'', data = []\<rparr>
          else skip)"

definition switchCase_listener :: listener where
  "switchCase_listener env anc p node =
     (case get node ''test'' of
        None \<Rightarrow> throw (NonNullAssertionFailed ''test'' ''SwitchCase'')
      | Some test \<Rightarrow>
          let tsNode = p @ [Fld ''test''] in
          if isAnyOrAnyArrayType env tsNode
          then report \<lparr>anchor = p, messageId = ''switchCaseTestIsAny'', data = []\<rparr>
          else skip)"

subsection \<open>Selectors\<close>

text \<open>
  The keys of the object \<^verbatim>\<open>create\<close> returns are selectors, which the host parses and
  matches with esquery. A selector is a node type, a field (\<^verbatim>\<open>.id\<close>: the node is the
  \<^verbatim>\<open>id\<close> of its parent), an attribute test (\<^verbatim>\<open>[init]\<close>: the attribute is neither
  \<^verbatim>\<open>null\<close> nor \<^verbatim>\<open>undefined\<close>), a negation, an alternative, a conjunction (atoms
  written without a blank between them) or a parent-child pair (\<^verbatim>\<open>>\<close>).
\<close>

datatype aval = AStr string | ANum nat | AObj

datatype selector =
    Ident string
  | Field string
  | Attr string
  | AttrEq string aval
  | AttrGt string nat
  | Not "selector list"
  | Matches "selector list"
  | Compound "selector list"
  | Child selector selector

text \<open>
  The attributes that are not nodes, for the attribute names the selectors of this rule
  use.
\<close>

fun scalar :: "node \<Rightarrow> string \<Rightarrow> aval option" where
  "scalar (VariableDeclaration k ds) a = (if a = ''kind'' then Some (AStr k) else None)"
| "scalar (ArrayExpression els) a =
     (if a = ''elements.length'' then Some (ANum (length els)) else None)"
| "scalar (CallExpression c tps as) a =
     (if a = ''arguments.length'' then Some (ANum (length as)) else None)"
| "scalar _ a = None"

definition attr :: "node \<Rightarrow> string \<Rightarrow> aval option" where
  "attr n a = (case get n a of Some c \<Rightarrow> Some AObj | None \<Rightarrow> scalar n a)"

text \<open>
  Whether a selector matches the node \<open>n\<close> at place \<open>p\<close> with ancestors \<open>anc\<close>. The root
  has no parent, so no field and no parent-child selector matches it.
\<close>

fun matches :: "selector \<Rightarrow> node list \<Rightarrow> path \<Rightarrow> node \<Rightarrow> bool" where
  "matches (Ident t) anc p n = (ntype n = t)"
| "matches (Field f) anc p n = (anc \<noteq> [] \<and> p \<noteq> [] \<and> field_of (last p) = f)"
| "matches (Attr a) anc p n = (attr n a \<noteq> None)"
| "matches (AttrEq a v) anc p n = (attr n a = Some v)"
| "matches (AttrGt a k) anc p n = (case attr n a of Some (ANum m) \<Rightarrow> k < m | _ \<Rightarrow> False)"
| "matches (Not ss) anc p n = (\<not> list_ex (\<lambda>s. matches s anc p n) ss)"
| "matches (Matches ss) anc p n = list_ex (\<lambda>s. matches s anc p n) ss"
| "matches (Compound ss) anc p n = list_all (\<lambda>s. matches s anc p n) ss"
| "matches (Child l r) anc p n =
     (matches r anc p n \<and>
      (case anc of [] \<Rightarrow> False | parent # anc' \<Rightarrow> matches l anc' (butlast p) parent))"

text \<open>
  The host runs the listeners that match a node in the order of their specificity: the
  number of attribute and field atoms, then the number of node types, then the selector's
  text.
\<close>

fun attributeCount :: "selector \<Rightarrow> nat" where
  "attributeCount (Child l r) = attributeCount l + attributeCount r"
| "attributeCount (Compound ss) = sum_list (map attributeCount ss)"
| "attributeCount (Not ss) = sum_list (map attributeCount ss)"
| "attributeCount (Matches ss) = sum_list (map attributeCount ss)"
| "attributeCount (Attr a) = 1"
| "attributeCount (AttrEq a v) = 1"
| "attributeCount (AttrGt a k) = 1"
| "attributeCount (Field f) = 1"
| "attributeCount (Ident t) = 0"

fun identifierCount :: "selector \<Rightarrow> nat" where
  "identifierCount (Child l r) = identifierCount l + identifierCount r"
| "identifierCount (Compound ss) = sum_list (map identifierCount ss)"
| "identifierCount (Not ss) = sum_list (map identifierCount ss)"
| "identifierCount (Matches ss) = sum_list (map identifierCount ss)"
| "identifierCount (Ident t) = 1"
| "identifierCount _ = 0"

text \<open>
  The listeners with their selectors, in the order of the source. An identifier of a
  selector ends at a dot, so the atoms \<^verbatim>\<open>TSESTree.BlockStatement\<close> are the node type
  \<^verbatim>\<open>TSESTree\<close> and the field \<^verbatim>\<open>.BlockStatement\<close>. A selector with commas is the
  alternative of its parts.
\<close>

definition listeners :: "(string \<times> selector \<times> listener) list" where
  "listeners =
    [(''TSTypeReference'',
      Ident ''TSTypeReference'',
      TSTypeReference_listener),
     (''VariableDeclaration:matches([kind = \"let\"], [kind = \"var\"]) > VariableDeclarator:not([init])'',
      Child (Compound [Ident ''VariableDeclaration'',
                       Matches [AttrEq ''kind'' (AStr ''let''), AttrEq ''kind'' (AStr ''var'')]])
            (Compound [Ident ''VariableDeclarator'', Not [Attr ''init'']]),
      letNoInit_listener),
     (''VariableDeclaration:matches([kind = \"let\"], [kind = \"var\"]) > VariableDeclarator[init]'',
      Child (Compound [Ident ''VariableDeclaration'',
                       Matches [AttrEq ''kind'' (AStr ''let''), AttrEq ''kind'' (AStr ''var'')]])
            (Compound [Ident ''VariableDeclarator'', Attr ''init'']),
      letNullish_listener),
     (''VariableDeclaration > VariableDeclarator[init] > Identifier.id'',
      Child (Child (Ident ''VariableDeclaration'')
                   (Compound [Ident ''VariableDeclarator'', Attr ''init'']))
            (Compound [Ident ''Identifier'', Field ''id'']),
      identifierId_listener),
     (''VariableDeclaration > VariableDeclarator > ArrayExpression[elements.length = 0].init'',
      Child (Child (Ident ''VariableDeclaration'') (Ident ''VariableDeclarator''))
            (Compound [Ident ''ArrayExpression'', AttrEq ''elements.length'' (ANum 0),
                       Field ''init'']),
      emptyArrayInit_listener),
     (''VariableDeclaration > VariableDeclarator[init] > ObjectPattern.id'',
      Child (Child (Ident ''VariableDeclaration'')
                   (Compound [Ident ''VariableDeclarator'', Attr ''init'']))
            (Compound [Ident ''ObjectPattern'', Field ''id'']),
      objectPatternId_listener),
     (''VariableDeclaration > VariableDeclarator[init] > ArrayPattern.id'',
      Child (Child (Ident ''VariableDeclaration'')
                   (Compound [Ident ''VariableDeclarator'', Attr ''init'']))
            (Compound [Ident ''ArrayPattern'', Field ''id'']),
      arrayPatternId_listener),
     (''ForOfStatement > VariableDeclaration.left > VariableDeclarator'',
      Child (Child (Ident ''ForOfStatement'')
                   (Compound [Ident ''VariableDeclaration'', Field ''left'']))
            (Ident ''VariableDeclarator''),
      forOf_listener),
     (''ReturnStatement[argument]'',
      Compound [Ident ''ReturnStatement'', Attr ''argument''],
      returnStatement_listener),
     (''ArrowFunctionExpression > :not(TSESTree.BlockStatement).body'',
      Child (Ident ''ArrowFunctionExpression'')
            (Compound [Not [Compound [Ident ''TSESTree'', Field ''BlockStatement'']],
                       Field ''body'']),
      arrowBody_listener),
     (''CallExpression[arguments.length > 0]'',
      Compound [Ident ''CallExpression'', AttrGt ''arguments.length'' 0],
      callExpression_listener),
     (''AssignmentExpression'',
      Ident ''AssignmentExpression'',
      assignmentExpression_listener),
     (''UpdateExpression'',
      Ident ''UpdateExpression'',
      updateExpression_listener),
     (''IfStatement, WhileStatement, DoWhileStatement, ConditionalExpression'',
      Matches [Ident ''IfStatement'', Ident ''WhileStatement'', Ident ''DoWhileStatement'',
               Ident ''ConditionalExpression''],
      booleanTest_listener),
     (''SwitchStatement'',
      Ident ''SwitchStatement'',
      switchStatement_listener),
     (''SwitchCase[test]'',
      Compound [Ident ''SwitchCase'', Attr ''test''],
      switchCase_listener)]"

definition firing_order :: "(string \<times> selector \<times> listener) list" where
  "firing_order =
     sort_key (\<lambda>(raw, sel, l). (attributeCount sel, identifierCount sel, raw)) listeners"

subsection \<open>The traversal\<close>

text \<open>
  On entering a node the host runs every listener whose selector matches it, then visits
  the children. The rule has no exit listeners.
\<close>

definition fire :: "env \<Rightarrow> node list \<Rightarrow> path \<Rightarrow> node \<Rightarrow> action" where
  "fire env anc p n =
     forEach (\<lambda>(raw, sel, l). if matches sel anc p n then l env anc p n else skip) firing_order"

lemma single_smaller: "(st, c) \<in> set (single f n) \<Longrightarrow> size c \<le> size n"
  by (simp add: single_def)

lemma opt_smaller: "(st, c) \<in> set (opt f x) \<Longrightarrow> size c < size_option size x"
  by (cases x) (simp_all add: opt_def)

lemma arr_smaller: "(st, c) \<in> set (arr f ns) \<Longrightarrow> size c \<le> size_list size ns"
  by (auto simp: arr_def in_set_enumerate_eq nth_size_le)

lemma holes_smaller: "(st, c) \<in> set (holes f ns) \<Longrightarrow> size c < size_list (size_option size) ns"
proof -
  assume "(st, c) \<in> set (holes f ns)"
  then obtain i where "i < length ns" "ns ! i = Some c"
    by (auto simp: holes_def in_set_enumerate_eq split: option.splits)
  then have "size_option size (Some c) \<le> size_list (size_option size) ns"
    by (metis nth_size_le)
  then show ?thesis by simp
qed

lemma children_smaller: "(st, c) \<in> set (children n) \<Longrightarrow> size c < size n"
  by (cases n)
     (auto dest!: single_smaller opt_smaller arr_smaller holes_smaller)

function traverse :: "env \<Rightarrow> node list \<Rightarrow> path \<Rightarrow> node \<Rightarrow> action" where
  "traverse env anc p n =
     andThen (fire env anc p n)
       (forEach (\<lambda>(st, c). traverse env (n # anc) (p @ [st]) c) (children n))"
  by pat_completeness auto
termination
  by (relation "measure (\<lambda>(env, anc, p, n). size n)") (auto simp: children_smaller)

declare traverse.simps [simp del]

text \<open>One run of the rule over a tree: the reports in the order they were made, or the
  error that ended the run.\<close>

definition lint :: "env \<Rightarrow> node \<Rightarrow> error + diag list" where
  "lint env root = traverse env [] [] root []"

section \<open>Notions for stating and proving the properties\<close>

definition framed :: "action \<Rightarrow> bool" where
  "framed a = (\<forall>s. a s = (case a [] of Inl e \<Rightarrow> Inl e | Inr ds \<Rightarrow> Inr (s @ ds)))"

definition out_of :: "action \<Rightarrow> diag list" where
  "out_of a = (case a [] of Inl e \<Rightarrow> [] | Inr ds \<Rightarrow> ds)"

definition ok :: "action \<Rightarrow> bool" where
  "ok a = (case a [] of Inl e \<Rightarrow> False | Inr ds \<Rightarrow> True)"

subsection \<open>Example inputs\<close>

text \<open>A checker that resolves every node to a concrete type, with the default options.\<close>

definition concrete_env :: env where
  "concrete_env =
     \<lparr>checker = (\<lambda>p. Concrete), getText = (\<lambda>p. ''T''), allowVariableAnnotationFromAny = False\<rparr>"

text \<open>A checker that resolves the listed nodes as listed and every other node to a concrete
  type.\<close>

definition typed_env :: "(path \<times> type_desc) list \<Rightarrow> bool \<Rightarrow> env" where
  "typed_env tys allow =
     \<lparr>checker = (\<lambda>p. case map_of tys p of None \<Rightarrow> Concrete | Some t \<Rightarrow> t),
      getText = (\<lambda>p. ''T''), allowVariableAnnotationFromAny = allow\<rparr>"

text \<open>The root of a file: a \<^verbatim>\<open>Program\<close> with its statements.\<close>

definition Program :: "node list \<Rightarrow> node" where
  "Program body = Other ''Program'' body"

text \<open>\<^verbatim>\<open>let x;\<close>\<close>

definition let_x :: node where
  "let_x = Program [VariableDeclaration ''let'' [VariableDeclarator (Identifier [] ''x'' None) None]]"

text \<open>\<^verbatim>\<open>const [, x] = v;\<close>\<close>

definition const_hole_x :: node where
  "const_hole_x =
     Program [VariableDeclaration ''const''
       [VariableDeclarator (ArrayPattern [] [None, Some (Identifier [] ''x'' None)] None)
          (Some (Identifier [] ''v'' None))]]"

text \<open>\<^verbatim>\<open>const f = () => {};\<close>\<close>

definition const_f_arrow_block :: node where
  "const_f_arrow_block =
     Program [VariableDeclaration ''const''
       [VariableDeclarator (Identifier [] ''f'' None)
          (Some (ArrowFunctionExpression None [] None (BlockStatement [])))]]"

function visits :: "node list \<Rightarrow> path \<Rightarrow> node \<Rightarrow> (node list \<times> path \<times> node) list" where
  "visits anc p n =
     (anc, p, n) # concat (map (\<lambda>(st, c). visits (n # anc) (p @ [st]) c) (children n))"
  by pat_completeness auto
termination
  by (relation "measure (\<lambda>(anc, p, n). size n)") (auto simp: children_smaller)

declare visits.simps [simp del]

fun locate :: "node list \<Rightarrow> node \<Rightarrow> path \<Rightarrow> (node list \<times> node) option" where
  "locate anc n [] = Some (anc, n)"
| "locate anc n (st # rest) =
     (case map_of (children n) st of None \<Rightarrow> None | Some c \<Rightarrow> locate (n # anc) c rest)"

definition emit :: "env \<Rightarrow> node list \<times> path \<times> node \<Rightarrow> diag list" where
  "emit env = (\<lambda>(anc, p, n). out_of (fire env anc p n))"

text \<open>
  Where a report made on entering the node at \<open>q\<close> is anchored, by its message: at the
  node, at its parent, at one of its children, or at a leaf of the pattern below it.
\<close>

definition placed :: "path \<Rightarrow> diag \<Rightarrow> bool" where
  "placed q d =
     (messageId d \<in> {''typeReferenceResolvesToAny'', ''letVariableWithNoInitialAndNoAnnotation'',
         ''letVariableInitialisedToNullishAndNoAnnotation'', ''loopVariableInitialisedToAny'',
         ''returnAny'', ''assignmentValueIsAny'', ''updateExpressionIsAny'',
         ''switchCaseTestIsAny''} \<and> anchor d = q \<or>
      messageId d \<in> {''variableDeclarationInitialisedToAnyWithoutAnnotation'',
         ''variableDeclarationInitialisedToAnyWithAnnotation''} \<and> anchor d = butlast q \<or>
      messageId d = ''booleanTestIsAny'' \<and> anchor d = q @ [Fld ''test''] \<or>
      messageId d = ''switchDiscriminantIsAny'' \<and> anchor d = q @ [Fld ''discriminant''] \<or>
      messageId d = ''passedArgumentIsAny'' \<and> (\<exists>i. anchor d = q @ [Elt ''arguments'' i]) \<or>
      messageId d = ''patternVariableDeclarationInitialisedToAny'' \<and>
        q \<noteq> [] \<and> field_of (last q) = ''id'' \<and>
        (\<exists>ext. anchor d = q @ ext \<and>
           (\<forall>s\<in>set ext. field_of s \<in> {''properties'', ''value'', ''elements''})))"

text \<open>\<^verbatim>\<open>x++;\<close>\<close>

definition x_plus_plus :: node where
  "x_plus_plus = Program [Other ''ExpressionStatement'' [UpdateExpression (Identifier [] ''x'' None)]]"


text \<open>What the host needs of a report: a message identifier of the rule, a value for each
  name its template asks for, and for a test one of the four labels.\<close>

definition well_formed :: "diag \<Rightarrow> bool" where
  "well_formed d =
     (messageId d \<in> set MessageIds \<and>
      (\<forall>k\<in>set (required_data (messageId d)). \<exists>v. map_of (data d) k = Some (Some v)) \<and>
      (messageId d = ''booleanTestIsAny'' \<longrightarrow>
         map_of (data d) ''kind'' \<in>
           {Some (Some ''if''), Some (Some ''while''), Some (Some ''do while''),
            Some (Some ''ternary'')}))"

text \<open>The declaration at place \<open>p\<close> with ancestors \<open>anc\<close> is the \<^verbatim>\<open>left\<close> of a
  \<^verbatim>\<open>for (... of ...)\<close> statement.\<close>

definition for_of_head :: "node list \<Rightarrow> path \<Rightarrow> bool" where
  "for_of_head anc p =
     (case anc of
        [] \<Rightarrow> False
      | loop # _ \<Rightarrow> ntype loop = ''ForOfStatement'' \<and> p \<noteq> [] \<and> field_of (last p) = ''left'')"

section \<open>Lemmas\<close>

lemma firing_order_eq:
  "firing_order =
     [listeners ! 11, listeners ! 14, listeners ! 0, listeners ! 12, listeners ! 13,
      listeners ! 10, listeners ! 8, listeners ! 15, listeners ! 7, listeners ! 9,
      listeners ! 4, listeners ! 6, listeners ! 3, listeners ! 5, listeners ! 1, listeners ! 2]"
  unfolding firing_order_def listeners_def
  by (simp add: less_eq_char_def less_char_def)

lemma set_firing_order: "set firing_order = set listeners"
  by (simp add: firing_order_def)

lemma framed_report [simp]: "framed (report d)"
  by (simp add: framed_def report_def)

lemma framed_skip [simp]: "framed skip"
  by (simp add: framed_def skip_def)

lemma framed_throw [simp]: "framed (throw e)"
  by (simp add: framed_def throw_def)

lemma framedD: "framed a \<Longrightarrow> a s = (case a [] of Inl e \<Rightarrow> Inl e | Inr ds \<Rightarrow> Inr (s @ ds))"
  unfolding framed_def by (rule spec)

lemma framed_andThen [simp]:
  assumes a: "framed a" and b: "framed b"
  shows "framed (andThen a b)"
  unfolding framed_def
proof
  fix s
  show "andThen a b s = (case andThen a b [] of Inl e \<Rightarrow> Inl e | Inr ds \<Rightarrow> Inr (s @ ds))"
  proof (cases "a []")
    case (Inl e)
    then have "a s = Inl e" using framedD [OF a, of s] by simp
    with Inl show ?thesis by (simp add: andThen_def)
  next
    case (Inr xs)
    then have as: "a s = Inr (s @ xs)" using framedD [OF a, of s] by simp
    show ?thesis
    proof (cases "b []")
      case (Inl e)
      then have "b (s @ xs) = Inl e" "b xs = Inl e"
        using framedD [OF b, of "s @ xs"] framedD [OF b, of xs] by simp_all
      with Inr as show ?thesis by (simp add: andThen_def)
    next
      case (Inr ys)
      then have "b (s @ xs) = Inr (s @ xs @ ys)" "b xs = Inr (xs @ ys)"
        using framedD [OF b, of "s @ xs"] framedD [OF b, of xs] by simp_all
      with \<open>a [] = Inr xs\<close> as show ?thesis by (simp add: andThen_def)
    qed
  qed
qed

lemma framed_forEach: "(\<And>x. x \<in> set xs \<Longrightarrow> framed (f x)) \<Longrightarrow> framed (forEach f xs)"
  by (induction xs) simp_all

lemma framed_reportVariableDeclarationInitialisedToAny [simp]:
  "framed (reportVariableDeclarationInitialisedToAny env p n)"
  by (simp add: reportVariableDeclarationInitialisedToAny_def split: option.splits)

lemma framed_checkDestructuringPattern [simp]:
  "framed (checkDestructuringPattern env p n)"
proof (induction env p n rule: checkDestructuringPattern.induct)
  case (1 env p)
  show ?case by (simp add: checkDestructuringPattern.simps)
next
  case (2 env p node)
  show ?case
    by (subst checkDestructuringPattern.simps, cases node)
       (auto intro!: framed_forEach 2 split: option.splits)
qed

lemma framed_listeners: "(raw, sel, l) \<in> set listeners \<Longrightarrow> framed (l env anc p n)"
  by (auto simp: listeners_def TSTypeReference_listener_def letNoInit_listener_def
      letNullish_listener_def identifierId_listener_def emptyArrayInit_listener_def
      objectPatternId_listener_def arrayPatternId_listener_def forOf_listener_def
      returnStatement_listener_def arrowBody_listener_def callExpression_listener_def
      assignmentExpression_listener_def updateExpression_listener_def
      booleanTest_listener_def switchStatement_listener_def switchCase_listener_def Let_def
      intro!: framed_forEach
      split: option.splits list.splits node.splits)

lemma framed_fire [simp]: "framed (fire env anc p n)"
  unfolding fire_def
  by (rule framed_forEach) (auto simp: set_firing_order dest: framed_listeners)

lemma framed_traverse [simp]: "framed (traverse env anc p n)"
proof (induction env anc p n rule: traverse.induct)
  case (1 env anc p n)
  show ?case
    by (subst traverse.simps) (auto intro!: framed_andThen framed_forEach 1)
qed

subsection \<open>Runs on the example inputs\<close>

lemma lint_let_x:
  "lint concrete_env let_x =
     Inr [\<lparr>anchor = [Elt ''children'' 0, Elt ''declarations'' 0],
           messageId = ''letVariableWithNoInitialAndNoAnnotation'',
           data = [(''kind'', Some ''let'')]\<rparr>]"
  by code_simp

lemma out_of_report [simp]: "out_of (report d) = [d]"
  by (simp add: out_of_def report_def)

lemma out_of_skip [simp]: "out_of skip = []"
  by (simp add: out_of_def skip_def)

lemma out_of_throw [simp]: "out_of (throw e) = []"
  by (simp add: out_of_def throw_def)

lemma ok_report [simp]: "ok (report d)"
  by (simp add: ok_def report_def)

lemma ok_skip [simp]: "ok skip"
  by (simp add: ok_def skip_def)

lemma ok_throw [simp]: "\<not> ok (throw e)"
  by (simp add: ok_def throw_def)

lemma ok_andThen [simp]:
  assumes "framed a" "framed b"
  shows "ok (andThen a b) = (ok a \<and> ok b)"
proof (cases "a []")
  case (Inl e)
  then show ?thesis by (simp add: ok_def andThen_def)
next
  case (Inr xs)
  then show ?thesis
    using framedD [OF assms(2), of xs]
    by (auto simp: ok_def andThen_def split: sum.splits)
qed

lemma out_of_andThen [simp]:
  assumes "framed a" "framed b" "ok a" "ok b"
  shows "out_of (andThen a b) = out_of a @ out_of b"
proof -
  obtain xs ys where "a [] = Inr xs" "b [] = Inr ys"
    using assms(3,4) by (auto simp: ok_def split: sum.splits)
  then show ?thesis
    using framedD [OF assms(2), of xs]
    by (simp add: out_of_def andThen_def)
qed

lemma ok_forEach:
  "(\<And>x. x \<in> set xs \<Longrightarrow> framed (f x)) \<Longrightarrow> ok (forEach f xs) = (\<forall>x\<in>set xs. ok (f x))"
  by (induction xs) (simp_all add: framed_forEach)

lemma out_of_forEach:
  "(\<And>x. x \<in> set xs \<Longrightarrow> framed (f x)) \<Longrightarrow> ok (forEach f xs) \<Longrightarrow>
   out_of (forEach f xs) = concat (map (\<lambda>x. out_of (f x)) xs)"
  by (induction xs) (simp_all add: framed_forEach ok_forEach)

lemma lint_Inr_iff:
  "lint env root = Inr out \<longleftrightarrow> ok (traverse env [] [] root) \<and> out = out_of (traverse env [] [] root)"
  by (auto simp: lint_def ok_def out_of_def split: sum.splits)

lemma concat_map_concat:
  "concat (map (\<lambda>x. concat (map f (g x))) xs) = concat (map f (concat (map g xs)))"
  by (induction xs) simp_all

lemma traverse_visits:
  "ok (traverse env anc p n) \<Longrightarrow>
     out_of (traverse env anc p n) = concat (map (emit env) (visits anc p n)) \<and>
     (\<forall>(a, q, m) \<in> set (visits anc p n). ok (fire env a q m))"
proof (induction env anc p n rule: traverse.induct)
  case (1 env anc p n)
  let ?f = "\<lambda>(st, c). traverse env (n # anc) (p @ [st]) c"
  have fr: "\<And>x. x \<in> set (children n) \<Longrightarrow> framed (?f x)"
    by auto
  have frc: "framed (forEach ?f (children n))"
    by (rule framed_forEach) auto
  from "1.prems" have okf: "ok (fire env anc p n)" and okc: "ok (forEach ?f (children n))"
    using ok_andThen [OF framed_fire frc, of env anc p]
    by (simp_all add: traverse.simps [of env anc p n])
  then have each: "\<And>st c. (st, c) \<in> set (children n) \<Longrightarrow> ok (traverse env (n # anc) (p @ [st]) c)"
    using ok_forEach [of "children n" ?f] fr by auto
  have out: "out_of (traverse env anc p n) =
      out_of (fire env anc p n) @ concat (map (\<lambda>x. out_of (?f x)) (children n))"
    using okf okc out_of_andThen [OF framed_fire frc, of env anc p] out_of_forEach [of "children n" ?f] fr
    by (simp add: traverse.simps [of env anc p n])
  have "map (\<lambda>x. out_of (?f x)) (children n) =
        map (\<lambda>x. concat (map (emit env) ((\<lambda>(st, c). visits (n # anc) (p @ [st]) c) x))) (children n)"
    using "1.IH" each by (auto intro!: map_cong)
  with out have "out_of (traverse env anc p n) = concat (map (emit env) (visits anc p n))"
    by (simp add: visits.simps [of anc p n] concat_map_concat) (simp add: emit_def)
  moreover have "\<forall>(a, q, m) \<in> set (visits anc p n). ok (fire env a q m)"
  proof -
    have "\<And>st c x. (st, c) \<in> set (children n) \<Longrightarrow> x \<in> set (visits (n # anc) (p @ [st]) c) \<Longrightarrow>
        (case x of (a, q, m) \<Rightarrow> ok (fire env a q m))"
      using "1.IH" each by blast
    then show ?thesis
      using okf by (auto simp: visits.simps [of anc p n])
  qed
  ultimately show ?case by simp
qed

subsection \<open>The places of a tree\<close>

lemma fst_single [simp]: "map fst (single f n) = [Fld f]"
  by (simp add: single_def)

lemma fst_opt [simp]: "map fst (opt f x) = (case x of None \<Rightarrow> [] | Some c \<Rightarrow> [Fld f])"
  by (simp add: opt_def split: option.splits)

lemma fst_arr [simp]: "map fst (arr f ns) = map (Elt f) [0..<length ns]"
proof -
  have "map fst (arr f ns) = map (Elt f) (map fst (enumerate 0 ns))"
    unfolding arr_def map_map by (rule map_cong) auto
  also have "\<dots> = map (Elt f) [0..<length ns]"
    by (simp only: map_fst_enumerate) simp
  finally show ?thesis .
qed

lemma holes_eq:
  "holes f ns = map (\<lambda>i. (Elt f i, the (ns ! i))) (filter (\<lambda>i. ns ! i \<noteq> None) [0..<length ns])"
proof (induction ns rule: rev_induct)
  case Nil
  then show ?case by (simp add: holes_def)
next
  case (snoc x xs)
  have "map (\<lambda>i. (Elt f i, the ((xs @ [x]) ! i))) (filter (\<lambda>i. (xs @ [x]) ! i \<noteq> None) [0..<length xs])
      = map (\<lambda>i. (Elt f i, the (xs ! i))) (filter (\<lambda>i. xs ! i \<noteq> None) [0..<length xs])"
    by (auto simp: nth_append intro!: map_cong filter_cong)
  with snoc show ?case
    by (auto simp: holes_def enumerate_append_eq nth_append split: option.splits)
qed

lemma fst_holes [simp]:
  "map fst (holes f ns) = map (Elt f) (filter (\<lambda>i. ns ! i \<noteq> None) [0..<length ns])"
  by (simp add: holes_eq comp_def)

lemma distinct_children: "distinct (map fst (children n))"
  by (cases n) (auto simp: distinct_map inj_on_def split: option.splits)

lemma visits_prefix: "(a, q, m) \<in> set (visits anc p n) \<Longrightarrow> prefix p q"
proof (induction anc p n arbitrary: a q m rule: visits.induct)
  case (1 anc p n)
  from "1.prems" consider "q = p" | st c where "(st, c) \<in> set (children n)"
      "(a, q, m) \<in> set (visits (n # anc) (p @ [st]) c)"
    by (subst (asm) visits.simps) auto
  then show ?case
  proof cases
    case 1
    then show ?thesis by simp
  next
    case 2
    then have "prefix (p @ [st]) q"
      using "1.IH" by blast
    then show ?thesis by (rule append_prefixD)
  qed
qed

lemma visits_Cons:
  "visits anc p n = (anc, p, n) # concat (map (\<lambda>(st, c). visits (n # anc) (p @ [st]) c) (children n))"
  by (rule visits.simps)

lemma visits_below:
  assumes "(st, c) \<in> set (children n)" "(a, q, m) \<in> set (visits (n # anc) (p @ [st]) c)"
  shows "\<exists>r. q = p @ st # r"
  using visits_prefix [OF assms(2)] by (auto simp: prefix_def)

lemma visits_split:
  "locate anc0 n0 rest = Some (anc, n) \<Longrightarrow>
   \<exists>pre post. visits anc0 p0 n0 = pre @ visits anc (p0 @ rest) n @ post \<and>
     (\<forall>x \<in> set pre \<union> set post. \<not> prefix (p0 @ rest) (fst (snd x)))"
proof (induction rest arbitrary: anc0 n0 p0)
  case Nil
  then have "visits anc0 p0 n0 = [] @ visits anc (p0 @ []) n @ []" by simp
  then show ?case by (intro exI [of _ "[]"]) simp
next
  case (Cons st rest)
  from Cons.prems obtain c where c: "map_of (children n0) st = Some c"
    and loc: "locate (n0 # anc0) c rest = Some (anc, n)"
    by (auto split: option.splits)
  from c have "(st, c) \<in> set (children n0)" by (rule map_of_SomeD)
  then obtain cs1 cs2 where cs: "children n0 = cs1 @ (st, c) # cs2"
    by (auto dest: split_list)
  have notin: "st \<notin> fst ` set cs1" "st \<notin> fst ` set cs2"
    using distinct_children [of n0] cs by auto
  let ?g = "\<lambda>(st, c). visits (n0 # anc0) (p0 @ [st]) c"
  from Cons.IH [OF loc, of "p0 @ [st]"] obtain pre post where
    v: "visits (n0 # anc0) (p0 @ [st]) c = pre @ visits anc (p0 @ st # rest) n @ post"
    and np: "\<forall>x \<in> set pre \<union> set post. \<not> prefix (p0 @ st # rest) (fst (snd x))"
    by auto
  have other: "\<not> prefix (p0 @ st # rest) (fst (snd x))"
    if h1: "(st', c') \<in> set cs1 \<union> set cs2" and h2: "x \<in> set (visits (n0 # anc0) (p0 @ [st']) c')"
    for st' c' x
  proof
    assume pre: "prefix (p0 @ st # rest) (fst (snd x))"
    obtain a q m where x: "x = (a, q, m)" by (cases x)
    have "(st', c') \<in> set (children n0)" using h1 cs by auto
    then obtain r where "q = p0 @ st' # r"
      using visits_below h2 x by blast
    with pre x have "st = st'" by (auto simp: prefix_def)
    with h1 notin show False by force
  qed
  have "visits anc0 p0 n0 =
      ((anc0, p0, n0) # concat (map ?g cs1) @ pre) @ visits anc (p0 @ st # rest) n @
      (post @ concat (map ?g cs2))"
    by (simp add: visits_Cons [of anc0 p0 n0] cs v)
  moreover have "\<forall>x \<in> set ((anc0, p0, n0) # concat (map ?g cs1) @ pre) \<union>
      set (post @ concat (map ?g cs2)). \<not> prefix (p0 @ st # rest) (fst (snd x))"
  proof
    fix x
    assume "x \<in> set ((anc0, p0, n0) # concat (map ?g cs1) @ pre) \<union> set (post @ concat (map ?g cs2))"
    then consider "x = (anc0, p0, n0)" | "x \<in> set pre \<union> set post"
      | st' c' where "(st', c') \<in> set cs1 \<union> set cs2" "x \<in> set (visits (n0 # anc0) (p0 @ [st']) c')"
      by auto
    then show "\<not> prefix (p0 @ st # rest) (fst (snd x))"
    proof cases
      case 1
      then show ?thesis by (simp add: prefix_def)
    next
      case 2
      then show ?thesis using np by blast
    next
      case 3
      then show ?thesis by (rule other)
    qed
  qed
  ultimately show ?case by blast
qed

subsection \<open>Where reports are anchored\<close>

lemma out_of_not_ok: "\<not> ok a \<Longrightarrow> out_of a = []"
  by (auto simp: ok_def out_of_def split: sum.splits)

lemma out_of_forEach_cases:
  assumes "\<forall>x\<in>set xs. framed (f x)" "d \<in> set (out_of (forEach f xs))"
  shows "\<exists>x\<in>set xs. d \<in> set (out_of (f x))"
proof (cases "ok (forEach f xs)")
  case True
  then show ?thesis using assms out_of_forEach [of xs f] by auto
next
  case False
  then show ?thesis using assms(2) by (simp add: out_of_not_ok)
qed

lemma fire_cases:
  assumes "d \<in> set (out_of (fire env a q m))"
  shows "\<exists>(raw, sel, l) \<in> set listeners. matches sel a q m \<and> d \<in> set (out_of (l env a q m))"
proof -
  let ?f = "\<lambda>(raw, sel, l). if matches sel a q m then l env a q m else skip"
  have "\<forall>x\<in>set firing_order. framed (?f x)"
    by (auto simp: set_firing_order dest: framed_listeners)
  then obtain x where x: "x \<in> set firing_order" "d \<in> set (out_of (?f x))"
    using assms out_of_forEach_cases [of firing_order ?f d] unfolding fire_def by blast
  obtain raw sel l where rsl: "x = (raw, sel, l)" by (cases x)
  have "(raw, sel, l) \<in> set listeners"
    using x(1) rsl unfolding set_firing_order by simp
  moreover have "matches sel a q m \<and> d \<in> set (out_of (l env a q m))"
    using x(2) rsl by (simp split: if_splits)
  ultimately show ?thesis by blast
qed

lemma check_placed:
  "d \<in> set (out_of (checkDestructuringPattern env p n)) \<Longrightarrow>
   messageId d = ''patternVariableDeclarationInitialisedToAny'' \<and> data d = [] \<and>
   isAnyOrAnyArrayType env (anchor d) \<and>
   (\<exists>ext. anchor d = p @ ext \<and>
      (\<forall>s\<in>set ext. field_of s \<in> {''properties'', ''value'', ''elements''}))"
proof (induction env p n arbitrary: d rule: checkDestructuringPattern.induct)
  case (1 env p)
  then show ?case by (simp add: checkDestructuringPattern.simps)
next
  case (2 env p node)
  show ?case
  proof (cases node)
    case (ObjectPattern decs props ta)
    let ?f = "\<lambda>(i, prop). case get prop ''value'' of
                Some v \<Rightarrow>
                  checkDestructuringPattern env (p @ [Elt ''properties'' i, Fld ''value'']) (Some v)
              | None \<Rightarrow> checkDestructuringPattern env (p @ [Elt ''properties'' i]) (Some prop)"
    have fr: "\<forall>x\<in>set (enumerate 0 props). framed (?f x)"
      by (auto split: option.splits)
    have "d \<in> set (out_of (forEach ?f (enumerate 0 props)))"
      using "2.prems" ObjectPattern by (simp add: checkDestructuringPattern.simps)
    then obtain x where x: "x \<in> set (enumerate 0 props)" "d \<in> set (out_of (?f x))"
      using out_of_forEach_cases [where f = ?f and d = d] fr by blast
    obtain i pr where ip: "x = (i, pr)" by (cases x)
    show ?thesis
    proof (cases "get pr ''value''")
      case None
      with x ip have "d \<in> set (out_of (checkDestructuringPattern env (p @ [Elt ''properties'' i]) (Some pr)))"
        by simp
      from "2.IH"(1) [OF ObjectPattern x(1) ip [symmetric] None this] show ?thesis
        by (auto simp: last_append)
    next
      case (Some v)
      with x ip have "d \<in> set (out_of (checkDestructuringPattern env
          (p @ [Elt ''properties'' i, Fld ''value'']) (Some v)))"
        by simp
      from "2.IH"(2) [OF ObjectPattern x(1) ip [symmetric] Some this] show ?thesis
        by (auto simp: last_append)
    qed
  next
    case (ArrayPattern decs els ta)
    let ?f = "\<lambda>(i, el). checkDestructuringPattern env (p @ [Elt ''elements'' i]) el"
    have fr: "\<forall>x\<in>set (enumerate 0 els). framed (?f x)"
      by auto
    have "d \<in> set (out_of (forEach ?f (enumerate 0 els)))"
      using "2.prems" ArrayPattern by (simp add: checkDestructuringPattern.simps)
    then obtain x where x: "x \<in> set (enumerate 0 els)" "d \<in> set (out_of (?f x))"
      using out_of_forEach_cases [where f = ?f and d = d] fr by blast
    obtain i el where ip: "x = (i, el)" by (cases x)
    with x have "d \<in> set (out_of (checkDestructuringPattern env (p @ [Elt ''elements'' i]) el))"
      by simp
    from "2.IH"(3) [OF ArrayPattern x(1) ip [symmetric] this] show ?thesis
      by (auto simp: last_append)
  qed (use "2.prems" in \<open>auto simp: checkDestructuringPattern.simps split: if_splits\<close>)
qed

lemmas listener_defs = TSTypeReference_listener_def letNoInit_listener_def
  letNullish_listener_def identifierId_listener_def emptyArrayInit_listener_def
  objectPatternId_listener_def arrayPatternId_listener_def forOf_listener_def
  returnStatement_listener_def arrowBody_listener_def
  assignmentExpression_listener_def updateExpression_listener_def
  booleanTest_listener_def switchStatement_listener_def switchCase_listener_def

lemma report_placed:
  "d \<in> set (out_of (reportVariableDeclarationInitialisedToAny env p n)) \<Longrightarrow>
   messageId d \<in> {''variableDeclarationInitialisedToAnyWithoutAnnotation'',
         ''variableDeclarationInitialisedToAnyWithAnnotation''} \<and> anchor d = p \<and> data d = []"
  by (auto simp: reportVariableDeclarationInitialisedToAny_def split: option.splits if_splits)

lemma call_placed:
  assumes "d \<in> set (out_of (callExpression_listener env a q m))"
  shows "messageId d = ''passedArgumentIsAny'' \<and> data d = [] \<and>
     (\<exists>i. anchor d = q @ [Elt ''arguments'' i])"
proof (cases m)
  case (CallExpression c tps args)
  let ?f = "\<lambda>(i, argument).
              let tsNode = q @ [Elt ''arguments'' i] in
              if isAnyOrAnyArrayType env tsNode
              then report \<lparr>anchor = q @ [Elt ''arguments'' i], messageId = ''passedArgumentIsAny'',
                           data = []\<rparr>
              else skip"
  have fr: "\<forall>x\<in>set (enumerate 0 args). framed (?f x)"
    by (auto simp: Let_def)
  have "d \<in> set (out_of (forEach ?f (enumerate 0 args)))"
    using assms CallExpression by (simp add: callExpression_listener_def)
  then obtain x where "x \<in> set (enumerate 0 args)" and dx: "d \<in> set (out_of (?f x))"
    using out_of_forEach_cases [where f = ?f and d = d] fr by blast
  from dx show ?thesis
    by (cases x) (auto simp: Let_def split: if_splits)
qed (use assms in \<open>simp_all add: callExpression_listener_def\<close>)

lemma TSTypeReference_out:
  "d \<in> set (out_of (TSTypeReference_listener env a q m)) \<Longrightarrow>
   d = \<lparr>anchor = q, messageId = ''typeReferenceResolvesToAny'',
        data = [(''typeName'', Some (getText env q))]\<rparr>"
  by (auto simp: TSTypeReference_listener_def split: if_splits)

lemma letNoInit_out:
  "d \<in> set (out_of (letNoInit_listener env a q m)) \<Longrightarrow>
   \<exists>parent anc. a = parent # anc \<and>
     d = \<lparr>anchor = q, messageId = ''letVariableWithNoInitialAndNoAnnotation'',
          data = [(''kind'', kind_of parent)]\<rparr>"
  by (auto simp: letNoInit_listener_def split: option.splits list.splits if_splits)

lemma letNullish_out:
  "d \<in> set (out_of (letNullish_listener env a q m)) \<Longrightarrow>
   \<exists>parent anc. a = parent # anc \<and>
     d = \<lparr>anchor = q, messageId = ''letVariableInitialisedToNullishAndNoAnnotation'',
          data = [(''kind'', kind_of parent)]\<rparr>"
  by (auto simp: letNullish_listener_def split: option.splits list.splits if_splits)

lemma identifierId_out:
  "d \<in> set (out_of (identifierId_listener env a q m)) \<Longrightarrow>
   messageId d \<in> {''variableDeclarationInitialisedToAnyWithoutAnnotation'',
         ''variableDeclarationInitialisedToAnyWithAnnotation''} \<and>
   anchor d = butlast q \<and> data d = []"
  by (auto simp: identifierId_listener_def Let_def split: option.splits list.splits if_splits
      dest!: report_placed)

lemma emptyArrayInit_out:
  "d \<in> set (out_of (emptyArrayInit_listener env a q m)) \<Longrightarrow>
   d = \<lparr>anchor = butlast q, messageId = ''variableDeclarationInitialisedToAnyWithoutAnnotation'',
        data = []\<rparr>"
  by (auto simp: emptyArrayInit_listener_def split: option.splits list.splits if_splits)

lemma objectPatternId_out:
  "d \<in> set (out_of (objectPatternId_listener env a q m)) \<Longrightarrow>
   data d = [] \<and>
   (messageId d \<in> {''variableDeclarationInitialisedToAnyWithoutAnnotation'',
         ''variableDeclarationInitialisedToAnyWithAnnotation''} \<and> anchor d = butlast q \<or>
    messageId d = ''patternVariableDeclarationInitialisedToAny'' \<and>
      (\<exists>ext. anchor d = q @ ext \<and>
         (\<forall>s\<in>set ext. field_of s \<in> {''properties'', ''value'', ''elements''})))"
  by (auto simp: objectPatternId_listener_def Let_def split: option.splits list.splits if_splits
      dest!: report_placed check_placed)

lemma arrayPatternId_out:
  "d \<in> set (out_of (arrayPatternId_listener env a q m)) \<Longrightarrow>
   data d = [] \<and>
   (messageId d \<in> {''variableDeclarationInitialisedToAnyWithoutAnnotation'',
         ''variableDeclarationInitialisedToAnyWithAnnotation''} \<and> anchor d = butlast q \<or>
    messageId d = ''patternVariableDeclarationInitialisedToAny'' \<and>
      (\<exists>ext. anchor d = q @ ext \<and>
         (\<forall>s\<in>set ext. field_of s \<in> {''properties'', ''value'', ''elements''})))"
  by (auto simp: arrayPatternId_listener_def Let_def split: option.splits list.splits if_splits
      dest!: report_placed check_placed)

lemma forOf_out:
  "d \<in> set (out_of (forOf_listener env a q m)) \<Longrightarrow>
   d = \<lparr>anchor = q, messageId = ''loopVariableInitialisedToAny'', data = []\<rparr>"
  by (auto simp: forOf_listener_def split: if_splits)

lemma returnStatement_out:
  "d \<in> set (out_of (returnStatement_listener env a q m)) \<Longrightarrow>
   d = \<lparr>anchor = q, messageId = ''returnAny'', data = []\<rparr>"
  by (auto simp: returnStatement_listener_def Let_def split: option.splits if_splits)

lemma arrowBody_out:
  "d \<in> set (out_of (arrowBody_listener env a q m)) \<Longrightarrow>
   d = \<lparr>anchor = q, messageId = ''returnAny'', data = []\<rparr>"
  by (auto simp: arrowBody_listener_def split: if_splits)

lemma assignmentExpression_out:
  "d \<in> set (out_of (assignmentExpression_listener env a q m)) \<Longrightarrow>
   d = \<lparr>anchor = q, messageId = ''assignmentValueIsAny'', data = []\<rparr>"
  by (auto simp: assignmentExpression_listener_def Let_def split: option.splits if_splits)

lemma updateExpression_out:
  "d \<in> set (out_of (updateExpression_listener env a q m)) \<Longrightarrow>
   d = \<lparr>anchor = q, messageId = ''updateExpressionIsAny'', data = []\<rparr>"
  by (auto simp: updateExpression_listener_def Let_def split: option.splits if_splits)

lemma booleanTest_out:
  "d \<in> set (out_of (booleanTest_listener env a q m)) \<Longrightarrow>
   d = \<lparr>anchor = q @ [Fld ''test''], messageId = ''booleanTestIsAny'',
        data = [(''kind'', map_of typeToText (ntype m))]\<rparr>"
  by (auto simp: booleanTest_listener_def Let_def split: option.splits if_splits)

lemma switchStatement_out:
  "d \<in> set (out_of (switchStatement_listener env a q m)) \<Longrightarrow>
   d = \<lparr>anchor = q @ [Fld ''discriminant''], messageId = ''switchDiscriminantIsAny'', data = []\<rparr>"
  by (auto simp: switchStatement_listener_def Let_def split: option.splits if_splits)

lemma switchCase_out:
  "d \<in> set (out_of (switchCase_listener env a q m)) \<Longrightarrow>
   d = \<lparr>anchor = q, messageId = ''switchCaseTestIsAny'', data = []\<rparr>"
  by (auto simp: switchCase_listener_def Let_def split: option.splits if_splits)

lemma in_listeners:
  "(raw, sel, l) \<in> set listeners \<Longrightarrow>
   l = TSTypeReference_listener \<or> l = letNoInit_listener \<or> l = letNullish_listener \<or>
   l = identifierId_listener \<or> l = emptyArrayInit_listener \<or>
   (sel = Child (Child (Ident ''VariableDeclaration'')
                   (Compound [Ident ''VariableDeclarator'', Attr ''init'']))
            (Compound [Ident ''ObjectPattern'', Field ''id'']) \<and> l = objectPatternId_listener) \<or>
   (sel = Child (Child (Ident ''VariableDeclaration'')
                   (Compound [Ident ''VariableDeclarator'', Attr ''init'']))
            (Compound [Ident ''ArrayPattern'', Field ''id'']) \<and> l = arrayPatternId_listener) \<or>
   l = forOf_listener \<or> l = returnStatement_listener \<or>
   l = arrowBody_listener \<or> l = callExpression_listener \<or> l = assignmentExpression_listener \<or>
   l = updateExpression_listener \<or> l = booleanTest_listener \<or> l = switchStatement_listener \<or>
   l = switchCase_listener"
  unfolding listeners_def by (simp only: set_simps insert_iff empty_iff prod.inject) blast

lemma listener_placed:
  assumes "(raw, sel, l) \<in> set listeners" "matches sel a q m" "d \<in> set (out_of (l env a q m))"
  shows "placed q d"
  using in_listeners [OF assms(1)] assms(2,3)
  apply (elim disjE conjE)
                 apply simp_all
                 apply (drule TSTypeReference_out, simp add: placed_def)
                apply (drule letNoInit_out, force simp: placed_def)
               apply (drule letNullish_out, force simp: placed_def)
              apply (drule identifierId_out, simp add: placed_def)
             apply (drule emptyArrayInit_out, simp add: placed_def)
            apply (drule objectPatternId_out, force simp: placed_def)
           apply (drule arrayPatternId_out, force simp: placed_def)
          apply (drule forOf_out, simp add: placed_def)
         apply (drule returnStatement_out, simp add: placed_def)
        apply (drule arrowBody_out, simp add: placed_def)
       apply (drule call_placed, force simp: placed_def)
      apply (drule assignmentExpression_out, simp add: placed_def)
     apply (drule updateExpression_out, simp add: placed_def)
    apply (drule booleanTest_out, simp add: placed_def)
   apply (drule switchStatement_out, simp add: placed_def)
  apply (drule switchCase_out, simp add: placed_def)
  done

lemma fire_placed: "d \<in> set (out_of (fire env a q m)) \<Longrightarrow> placed q d"
  by (auto dest!: fire_cases intro: listener_placed)

subsection \<open>The reports of a run, by the place that made them\<close>

lemma lint_visits:
  assumes "lint env root = Inr out"
  shows "out = concat (map (emit env) (visits [] [] root))"
    and "\<forall>(a, q, m) \<in> set (visits [] [] root). ok (fire env a q m)"
  using assms traverse_visits [of env "[]" "[]" root] by (simp_all add: lint_Inr_iff)

lemma filter_concat_map_empty:
  "(\<And>x. x \<in> set xs \<Longrightarrow> filter P (f x) = []) \<Longrightarrow> filter P (concat (map f xs)) = []"
  by (induction xs) simp_all

lemma out_in_subtree:
  assumes run: "lint env root = Inr out"
    and loc: "locate [] root p = Some (anc, n)"
    and outside: "\<forall>q d. \<not> prefix p q \<longrightarrow> placed q d \<longrightarrow> \<not> P d"
  shows "filter P out = filter P (concat (map (emit env) (visits anc p n)))"
    and "\<forall>(a, q, m) \<in> set (visits anc p n). ok (fire env a q m)"
proof -
  from visits_split [OF loc, of "[]"] obtain pre post where
    v: "visits [] [] root = pre @ visits anc p n @ post"
    and np: "\<forall>x \<in> set pre \<union> set post. \<not> prefix p (fst (snd x))"
    by auto
  have none: "filter P (emit env x) = []" if "x \<in> set pre \<union> set post" for x
  proof -
    obtain a q m where x: "x = (a, q, m)" by (cases x)
    from np that have "\<not> prefix p (fst (snd x))" by blast
    with x have "\<not> prefix p q" by simp
    then have "\<And>d. d \<in> set (emit env x) \<Longrightarrow> \<not> P d"
      using outside fire_placed x by (auto simp: emit_def)
    then show ?thesis by (simp add: filter_empty_conv)
  qed
  have "filter P out = filter P (concat (map (emit env) pre)) @
      filter P (concat (map (emit env) (visits anc p n))) @ filter P (concat (map (emit env) post))"
    using lint_visits(1) [OF run] by (simp add: v)
  moreover have "filter P (concat (map (emit env) pre)) = []"
    by (rule filter_concat_map_empty) (simp add: none)
  moreover have "filter P (concat (map (emit env) post)) = []"
    by (rule filter_concat_map_empty) (simp add: none)
  ultimately show "filter P out = filter P (concat (map (emit env) (visits anc p n)))"
    by simp
  show "\<forall>(a, q, m) \<in> set (visits anc p n). ok (fire env a q m)"
    using lint_visits(2) [OF run] by (auto simp: v)
qed

lemma visits_deeper:
  assumes "x \<in> set (tl (visits anc p n))"
  shows "\<exists>st r. fst (snd x) = p @ st # r"
proof -
  from assms obtain st c where "(st, c) \<in> set (children n)"
    "x \<in> set (visits (n # anc) (p @ [st]) c)"
    by (subst (asm) visits_Cons) auto
  then show ?thesis
    using visits_below [of st c n "fst x" "fst (snd x)" "snd (snd x)" anc p] by auto
qed

lemma out_at_node:
  assumes run: "lint env root = Inr out"
    and loc: "locate [] root p = Some (anc, n)"
    and other: "\<forall>q d. q \<noteq> p \<longrightarrow> placed q d \<longrightarrow> \<not> P d"
  shows "filter P out = filter P (out_of (fire env anc p n))"
    and "ok (fire env anc p n)"
proof -
  have outside: "\<forall>q d. \<not> prefix p q \<longrightarrow> placed q d \<longrightarrow> \<not> P d"
    using other by auto
  have sub: "filter P out = filter P (concat (map (emit env) (visits anc p n)))"
    and oks: "\<forall>(a, q, m) \<in> set (visits anc p n). ok (fire env a q m)"
    using out_in_subtree [OF run loc outside] by blast+
  have none: "filter P (emit env x) = []" if "x \<in> set (tl (visits anc p n))" for x
  proof -
    obtain a q m where x: "x = (a, q, m)" by (cases x)
    from visits_deeper [OF that] x have "q \<noteq> p" by auto
    then have "\<And>d. d \<in> set (emit env x) \<Longrightarrow> \<not> P d"
      using other fire_placed x by (auto simp: emit_def)
    then show ?thesis by (simp add: filter_empty_conv)
  qed
  have "filter P (concat (map (emit env) (tl (visits anc p n)))) = []"
    by (rule filter_concat_map_empty) (simp add: none)
  then show "filter P out = filter P (out_of (fire env anc p n))"
    using sub by (subst (asm) (2) visits_Cons) (simp add: visits_Cons [of anc p n] emit_def)
  show "ok (fire env anc p n)"
    using oks by (subst (asm) visits_Cons) simp
qed

subsection \<open>The reports made on entering one node\<close>

lemma framed_dispatch:
  "\<forall>x\<in>set firing_order.
     framed ((\<lambda>(raw, sel, l). if matches sel a q m then l env a q m else skip) x)"
  by (auto simp: set_firing_order dest: framed_listeners)

lemma fire_ok_iff:
  "ok (fire env a q m) \<longleftrightarrow>
   (\<forall>(raw, sel, l) \<in> set listeners. matches sel a q m \<longrightarrow> ok (l env a q m))"
proof -
  let ?f = "\<lambda>(raw, sel, l). if matches sel a q m then l env a q m else skip"
  have "ok (fire env a q m) \<longleftrightarrow> (\<forall>x\<in>set firing_order. ok (?f x))"
    unfolding fire_def using ok_forEach [of firing_order ?f] framed_dispatch [of a q m env]
    by blast
  then show ?thesis
    by (auto simp: set_firing_order split: if_splits)
qed

lemma fire_out_of:
  assumes "ok (fire env a q m)"
  shows "out_of (fire env a q m) =
    concat (map (\<lambda>(raw, sel, l). if matches sel a q m then out_of (l env a q m) else [])
      firing_order)"
proof -
  let ?f = "\<lambda>(raw, sel, l). if matches sel a q m then l env a q m else skip"
  have "out_of (fire env a q m) = concat (map (\<lambda>x. out_of (?f x)) firing_order)"
    using assms out_of_forEach [of firing_order ?f] framed_dispatch [of a q m env]
    unfolding fire_def by blast
  also have "\<dots> = concat (map (\<lambda>(raw, sel, l). if matches sel a q m then out_of (l env a q m) else [])
      firing_order)"
    by (rule arg_cong [where f = concat], rule map_cong) auto
  finally show ?thesis .
qed

lemma get_UpdateExpression [simp]: "get (UpdateExpression a) ''argument'' = Some a"
  by (simp add: get_def single_def)

lemma fire_UpdateExpression:
  assumes "ok (fire env a q (UpdateExpression arg))"
  shows "filter (\<lambda>d. messageId d = ''updateExpressionIsAny'') (out_of (fire env a q (UpdateExpression arg))) =
     (if isAnyType env (q @ [Fld ''argument''])
      then [\<lparr>anchor = q, messageId = ''updateExpressionIsAny'', data = []\<rparr>] else [])"
  apply (simp add: fire_out_of [OF assms] firing_order_eq listeners_def)
  apply (simp add: updateExpression_listener_def arrowBody_listener_def)
  done

lemma lint_x_plus_plus:
  "lint (typed_env [([Elt ''children'' 0, Elt ''children'' 0, Fld ''argument''], Dynamic)] False) x_plus_plus =
     Inr [\<lparr>anchor = [Elt ''children'' 0, Elt ''children'' 0],
           messageId = ''updateExpressionIsAny'', data = []\<rparr>]"
  by code_simp

lemma locate_x_plus_plus:
  "locate [] x_plus_plus [Elt ''children'' 0, Elt ''children'' 0] =
     Some ([Other ''ExpressionStatement'' [UpdateExpression (Identifier [] ''x'' None)], x_plus_plus],
           UpdateExpression (Identifier [] ''x'' None))"
  by code_simp

subsection \<open>Reading the fields of a node\<close>

lemma map_of_single [simp]: "map_of (single f n) (Fld g) = (if f = g then Some n else None)"
  by (simp add: single_def)

lemma map_of_opt [simp]: "map_of (opt f x) (Fld g) = (if f = g then x else None)"
  by (simp add: opt_def split: option.splits)

lemma map_of_arr_Fld [simp]: "map_of (arr f ns) (Fld g) = None"
  by (auto simp: map_of_eq_None_iff arr_def)

lemma map_of_holes_Fld [simp]: "map_of (holes f ns) (Fld g) = None"
  by (auto simp: map_of_eq_None_iff holes_eq)

lemmas get_simps = get_def map_add_def







subsection \<open>The data of a report\<close>

lemma required_data_simps:
  "required_data ''typeReferenceResolvesToAny'' = [''typeName'']"
  "required_data ''variableDeclarationInitialisedToAnyWithAnnotation'' = []"
  "required_data ''variableDeclarationInitialisedToAnyWithoutAnnotation'' = []"
  "required_data ''patternVariableDeclarationInitialisedToAny'' = []"
  "required_data ''letVariableInitialisedToNullishAndNoAnnotation'' = [''kind'']"
  "required_data ''letVariableWithNoInitialAndNoAnnotation'' = [''kind'']"
  "required_data ''loopVariableInitialisedToAny'' = []"
  "required_data ''returnAny'' = []"
  "required_data ''passedArgumentIsAny'' = []"
  "required_data ''assignmentValueIsAny'' = []"
  "required_data ''updateExpressionIsAny'' = []"
  "required_data ''booleanTestIsAny'' = [''kind'']"
  "required_data ''switchDiscriminantIsAny'' = []"
  "required_data ''switchCaseTestIsAny'' = []"
  by code_simp+

lemma MessageIds_distinct: "length MessageIds = 14 \<and> distinct MessageIds"
  by code_simp

lemma attr_kind: "attr n ''kind'' = Some (AStr k) \<Longrightarrow> kind_of n = Some k"
  by (cases n) (auto simp: attr_def get_simps split: option.splits if_splits)

lemmas wf_simps = well_formed_def MessageIds_def required_data_simps typeToText_def

lemma wf_TSTypeReference:
  "d \<in> set (out_of (TSTypeReference_listener env a q m)) \<Longrightarrow> well_formed d"
  by (drule TSTypeReference_out) (simp add: wf_simps)

lemma wf_letNoInit:
  assumes "matches (Child (Compound [Ident ''VariableDeclaration'',
                       Matches [AttrEq ''kind'' (AStr ''let''), AttrEq ''kind'' (AStr ''var'')]])
            (Compound [Ident ''VariableDeclarator'', Not [Attr ''init'']])) a q m"
    and "d \<in> set (out_of (letNoInit_listener env a q m))"
  shows "well_formed d"
proof -
  from assms(2) obtain parent anc where a: "a = parent # anc"
    and d: "d = \<lparr>anchor = q, messageId = ''letVariableWithNoInitialAndNoAnnotation'',
          data = [(''kind'', kind_of parent)]\<rparr>"
    by (auto dest: letNoInit_out)
  from assms(1) a have "attr parent ''kind'' = Some (AStr ''let'') \<or> attr parent ''kind'' = Some (AStr ''var'')"
    by simp
  then obtain k where "kind_of parent = Some k"
    by (auto dest: attr_kind)
  with d show ?thesis by (simp add: wf_simps)
qed

lemma wf_letNullish:
  assumes "matches (Child (Compound [Ident ''VariableDeclaration'',
                       Matches [AttrEq ''kind'' (AStr ''let''), AttrEq ''kind'' (AStr ''var'')]])
            (Compound [Ident ''VariableDeclarator'', Attr ''init''])) a q m"
    and "d \<in> set (out_of (letNullish_listener env a q m))"
  shows "well_formed d"
proof -
  from assms(2) obtain parent anc where a: "a = parent # anc"
    and d: "d = \<lparr>anchor = q, messageId = ''letVariableInitialisedToNullishAndNoAnnotation'',
          data = [(''kind'', kind_of parent)]\<rparr>"
    by (auto dest: letNullish_out)
  from assms(1) a have "attr parent ''kind'' = Some (AStr ''let'') \<or> attr parent ''kind'' = Some (AStr ''var'')"
    by simp
  then obtain k where "kind_of parent = Some k"
    by (auto dest: attr_kind)
  with d show ?thesis by (simp add: wf_simps)
qed

lemma wf_booleanTest:
  assumes "matches (Matches [Ident ''IfStatement'', Ident ''WhileStatement'', Ident ''DoWhileStatement'',
               Ident ''ConditionalExpression'']) a q m"
    and "d \<in> set (out_of (booleanTest_listener env a q m))"
  shows "well_formed d"
proof -
  from assms(2) have d: "d = \<lparr>anchor = q @ [Fld ''test''], messageId = ''booleanTestIsAny'',
        data = [(''kind'', map_of typeToText (ntype m))]\<rparr>"
    by (rule booleanTest_out)
  from assms(1) have "ntype m = ''IfStatement'' \<or> ntype m = ''WhileStatement'' \<or>
      ntype m = ''DoWhileStatement'' \<or> ntype m = ''ConditionalExpression''"
    by simp
  then show ?thesis
    by (elim disjE) (simp_all add: d wf_simps)
qed

lemma wf_plain:
  "d \<in> set (out_of (identifierId_listener env a q m)) \<Longrightarrow> well_formed d"
  "d \<in> set (out_of (emptyArrayInit_listener env a q m)) \<Longrightarrow> well_formed d"
  "d \<in> set (out_of (objectPatternId_listener env a q m)) \<Longrightarrow> well_formed d"
  "d \<in> set (out_of (arrayPatternId_listener env a q m)) \<Longrightarrow> well_formed d"
  "d \<in> set (out_of (forOf_listener env a q m)) \<Longrightarrow> well_formed d"
  "d \<in> set (out_of (returnStatement_listener env a q m)) \<Longrightarrow> well_formed d"
  "d \<in> set (out_of (arrowBody_listener env a q m)) \<Longrightarrow> well_formed d"
  "d \<in> set (out_of (callExpression_listener env a q m)) \<Longrightarrow> well_formed d"
  "d \<in> set (out_of (assignmentExpression_listener env a q m)) \<Longrightarrow> well_formed d"
  "d \<in> set (out_of (updateExpression_listener env a q m)) \<Longrightarrow> well_formed d"
  "d \<in> set (out_of (switchStatement_listener env a q m)) \<Longrightarrow> well_formed d"
  "d \<in> set (out_of (switchCase_listener env a q m)) \<Longrightarrow> well_formed d"
             apply (drule identifierId_out, elim conjE, simp add: wf_simps, elim disjE, simp_all add: wf_simps)[1]
            apply (drule emptyArrayInit_out, simp add: wf_simps)
           apply (drule objectPatternId_out, elim conjE disjE, simp_all add: wf_simps, elim disjE, simp_all add: wf_simps)[1]
          apply (drule arrayPatternId_out, elim conjE disjE, simp_all add: wf_simps, elim disjE, simp_all add: wf_simps)[1]
         apply (drule forOf_out, simp add: wf_simps)
        apply (drule returnStatement_out, simp add: wf_simps)
       apply (drule arrowBody_out, simp add: wf_simps)
      apply (drule call_placed, simp add: wf_simps)
     apply (drule assignmentExpression_out, simp add: wf_simps)
    apply (drule updateExpression_out, simp add: wf_simps)
   apply (drule switchStatement_out, simp add: wf_simps)
  apply (drule switchCase_out, simp add: wf_simps)
  done

lemma listener_well_formed:
  assumes "(raw, sel, l) \<in> set listeners" "matches sel a q m" "d \<in> set (out_of (l env a q m))"
  shows "well_formed d"
  using assms unfolding listeners_def
  apply (simp only: set_simps insert_iff empty_iff prod.inject)
  apply (elim disjE conjE)
                 apply (hypsubst, erule wf_TSTypeReference)
                apply (hypsubst, erule (1) wf_letNoInit)
               apply (hypsubst, erule (1) wf_letNullish)
              apply (hypsubst, erule wf_plain)
             apply (hypsubst, erule wf_plain)
            apply (hypsubst, erule wf_plain)
           apply (hypsubst, erule wf_plain)
          apply (hypsubst, erule wf_plain)
         apply (hypsubst, erule wf_plain)
        apply (hypsubst, erule wf_plain)
       apply (hypsubst, erule wf_plain)
      apply (hypsubst, erule wf_plain)
     apply (hypsubst, erule wf_plain)
    apply (hypsubst, erule (1) wf_booleanTest)
    apply (hypsubst, erule wf_plain)
   apply (hypsubst, erule wf_plain)
  apply (erule FalseE)
  done

lemma fire_well_formed: "d \<in> set (out_of (fire env a q m)) \<Longrightarrow> well_formed d"
  by (auto dest!: fire_cases intro: listener_well_formed)

lemma lint_report_source:
  assumes "lint env root = Inr out" "d \<in> set out"
  shows "\<exists>a q m. d \<in> set (out_of (fire env a q m))"
  using assms lint_visits(1) [OF assms(1)] by (auto simp: emit_def)

subsection \<open>The reports anchored at a declarator\<close>

lemma locate_snoc:
  "locate anc0 n0 (pp @ [st]) =
     (case locate anc0 n0 pp of
        None \<Rightarrow> None
      | Some (a, m) \<Rightarrow> (case map_of (children m) st of None \<Rightarrow> None | Some c \<Rightarrow> Some (m # a, c)))"
  by (induction pp arbitrary: anc0 n0) (auto split: option.splits)

lemma locate_parent:
  assumes "locate [] root p = Some (parent # anc, n)"
  shows "\<exists>pp st. p = pp @ [st] \<and> locate [] root pp = Some (anc, parent) \<and>
           map_of (children parent) st = Some n"
proof (cases p rule: rev_cases)
  case Nil
  with assms show ?thesis by simp
next
  case (snoc pp st)
  with assms show ?thesis
    by (auto simp: locate_snoc split: option.splits)
qed

lemma map_of_arr_Some:
  "map_of (arr f ns) st = Some n \<Longrightarrow> \<exists>i. st = Elt f i \<and> i < length ns \<and> ns ! i = n"
  by (auto dest!: map_of_SomeD simp: arr_def in_set_enumerate_eq)

lemma declarator_place:
  assumes "locate [] root p = Some (VariableDeclaration k ds # anc, n)"
  shows "\<exists>pp i. p = pp @ [Elt ''declarations'' i]"
  using locate_parent [OF assms] by (auto dest!: map_of_arr_Some)

lemma visits_self: "(a, q, c) \<in> set (visits a q c)"
  by (simp add: visits_Cons [of a q c])

lemma subtree_head:
  assumes "\<forall>q' d. (\<exists>st r. q' = q @ st # r) \<longrightarrow> placed q' d \<longrightarrow> \<not> P d"
  shows "filter P (concat (map (emit env) (visits a q c))) = filter P (out_of (fire env a q c))"
proof -
  have none: "filter P (emit env x) = []" if "x \<in> set (tl (visits a q c))" for x
  proof -
    obtain a' q' m where x: "x = (a', q', m)" by (cases x)
    from visits_deeper [OF that] x obtain st r where q': "q' = q @ st # r" by auto
    have "\<not> P d" if "d \<in> set (emit env x)" for d
    proof -
      from that x have "placed q' d" by (simp add: emit_def fire_placed)
      with assms q' show ?thesis by blast
    qed
    then show ?thesis by (simp add: filter_empty_conv)
  qed
  have "filter P (concat (map (emit env) (tl (visits a q c)))) = []"
    by (rule filter_concat_map_empty) (simp add: none)
  then show ?thesis
    by (subst (asm) visits_Cons) (simp add: visits_Cons [of a q c] emit_def)
qed

lemma placed_not_parent:
  assumes "placed (p @ st # st' # r) d"
  shows "anchor d \<noteq> p"
  using assms by (auto simp: placed_def butlast_append)

lemma placed_outside_declarator:
  assumes "placed q d" "\<not> prefix (pp @ [Elt ''declarations'' i]) q"
  shows "anchor d \<noteq> pp @ [Elt ''declarations'' i]"
proof
  assume eq: "anchor d = pp @ [Elt ''declarations'' i]"
  from assms(1) consider "anchor d = q" | "anchor d = butlast q"
    | s where "anchor d = q @ [s]" "field_of s \<in> {''test'', ''discriminant'', ''arguments''}"
    | ext where "anchor d = q @ ext" "\<forall>s\<in>set ext. field_of s \<in> {''properties'', ''value'', ''elements''}"
    by (auto simp: placed_def)
  then show False
  proof cases
    case 1
    with eq assms(2) show False by simp
  next
    case 2
    with eq have "q = (pp @ [Elt ''declarations'' i]) @ [last q]"
      by (cases q rule: rev_cases) auto
    then have "prefix (pp @ [Elt ''declarations'' i]) q"
      by (metis prefixI)
    with assms(2) show False by simp
  next
    case 3
    with eq show False by auto
  next
    case 4
    show False
    proof (cases ext rule: rev_cases)
      case Nil
      with 4 eq assms(2) show False by simp
    next
      case (snoc ext' s)
      with 4 eq show False by auto
    qed
  qed
qed

lemma declarator_reports:
  assumes run: "lint env root = Inr out"
    and loc: "locate [] root p = Some (VariableDeclaration k ds # anc, VariableDeclarator ident init)"
  shows "filter (\<lambda>d. anchor d = p) out =
      filter (\<lambda>d. anchor d = p)
        (out_of (fire env (VariableDeclaration k ds # anc) p (VariableDeclarator ident init))) @
      filter (\<lambda>d. anchor d = p)
        (out_of (fire env (VariableDeclarator ident init # VariableDeclaration k ds # anc)
           (p @ [Fld ''id'']) ident)) @
      (case init of
         None \<Rightarrow> []
       | Some e \<Rightarrow>
           filter (\<lambda>d. anchor d = p)
             (out_of (fire env (VariableDeclarator ident init # VariableDeclaration k ds # anc)
                (p @ [Fld ''init'']) e)))"
    and "ok (fire env (VariableDeclaration k ds # anc) p (VariableDeclarator ident init))"
    and "ok (fire env (VariableDeclarator ident init # VariableDeclaration k ds # anc)
           (p @ [Fld ''id'']) ident)"
    and "\<forall>e. init = Some e \<longrightarrow>
           ok (fire env (VariableDeclarator ident init # VariableDeclaration k ds # anc)
                (p @ [Fld ''init'']) e)"
proof -
  let ?P = "\<lambda>d. anchor d = p"
  let ?decl = "VariableDeclarator ident init"
  let ?anc = "VariableDeclaration k ds # anc"
  from declarator_place [OF loc] obtain pp i where p: "p = pp @ [Elt ''declarations'' i]"
    by blast
  have outside: "\<forall>q d. \<not> prefix p q \<longrightarrow> placed q d \<longrightarrow> \<not> ?P d"
    unfolding p using placed_outside_declarator by blast
  have sub: "filter ?P out = filter ?P (concat (map (emit env) (visits ?anc p ?decl)))"
    and oks: "\<forall>(a, q, m) \<in> set (visits ?anc p ?decl). ok (fire env a q m)"
    using out_in_subtree [OF run loc outside] by blast+
  have deep: "\<forall>q' d. (\<exists>st' r. q' = (p @ [st]) @ st' # r) \<longrightarrow> placed q' d \<longrightarrow> \<not> ?P d" for st
    using placed_not_parent [of p st] by auto
  have v: "visits ?anc p ?decl = (?anc, p, ?decl) # visits (?decl # ?anc) (p @ [Fld ''id'']) ident @
      (case init of None \<Rightarrow> [] | Some e \<Rightarrow> visits (?decl # ?anc) (p @ [Fld ''init'']) e)"
    by (simp add: visits_Cons [of ?anc p ?decl] single_def opt_def split: option.splits)
  show "filter ?P out =
      filter ?P (out_of (fire env ?anc p ?decl)) @
      filter ?P (out_of (fire env (?decl # ?anc) (p @ [Fld ''id'']) ident)) @
      (case init of None \<Rightarrow> []
       | Some e \<Rightarrow> filter ?P (out_of (fire env (?decl # ?anc) (p @ [Fld ''init'']) e)))"
  proof (cases init)
    case None
    then show ?thesis
      using subtree_head [OF deep [of "Fld ''id''"], where env = env and a = "?decl # ?anc" and c = ident]
      by (simp add: sub v [unfolded None] emit_def)
  next
    case (Some e)
    then show ?thesis
      using subtree_head [OF deep [of "Fld ''id''"], where env = env and a = "?decl # ?anc" and c = ident]
        subtree_head [OF deep [of "Fld ''init''"], where env = env and a = "?decl # ?anc" and c = e]
      by (simp add: sub v [unfolded Some] emit_def)
  qed
  show "ok (fire env ?anc p ?decl)"
    using oks by (simp add: v)
  have "(?decl # ?anc, p @ [Fld ''id''], ident) \<in> set (visits ?anc p ?decl)"
    by (simp add: v visits_self)
  with oks show "ok (fire env (?decl # ?anc) (p @ [Fld ''id'']) ident)"
    by blast
  show "\<forall>e. init = Some e \<longrightarrow> ok (fire env (?decl # ?anc) (p @ [Fld ''init'']) e)"
  proof (intro allI impI)
    fix e
    assume e: "init = Some e"
    have "(?decl # ?anc, p @ [Fld ''init''], e) \<in> set (visits ?anc p ?decl)"
      by (simp add: v [unfolded e] e visits_self)
    with oks show "ok (fire env (?decl # ?anc) (p @ [Fld ''init'']) e)"
      by blast
  qed
qed

lemma not_anchored_at_parent [simp]:
  "filter (\<lambda>d. anchor d = p) (out_of (TSTypeReference_listener env a (p @ [st]) m)) = []"
  "filter (\<lambda>d. anchor d = p) (out_of (letNoInit_listener env a (p @ [st]) m)) = []"
  "filter (\<lambda>d. anchor d = p) (out_of (letNullish_listener env a (p @ [st]) m)) = []"
  "filter (\<lambda>d. anchor d = p) (out_of (forOf_listener env a (p @ [st]) m)) = []"
  "filter (\<lambda>d. anchor d = p) (out_of (returnStatement_listener env a (p @ [st]) m)) = []"
  "filter (\<lambda>d. anchor d = p) (out_of (arrowBody_listener env a (p @ [st]) m)) = []"
  "filter (\<lambda>d. anchor d = p) (out_of (callExpression_listener env a (p @ [st]) m)) = []"
  "filter (\<lambda>d. anchor d = p) (out_of (assignmentExpression_listener env a (p @ [st]) m)) = []"
  "filter (\<lambda>d. anchor d = p) (out_of (updateExpression_listener env a (p @ [st]) m)) = []"
  "filter (\<lambda>d. anchor d = p) (out_of (booleanTest_listener env a (p @ [st]) m)) = []"
  "filter (\<lambda>d. anchor d = p) (out_of (switchStatement_listener env a (p @ [st]) m)) = []"
  "filter (\<lambda>d. anchor d = p) (out_of (switchCase_listener env a (p @ [st]) m)) = []"
  by (auto simp: filter_empty_conv
      dest!: TSTypeReference_out letNoInit_out letNullish_out forOf_out returnStatement_out
        arrowBody_out call_placed assignmentExpression_out updateExpression_out booleanTest_out
        switchStatement_out switchCase_out)

lemma check_not_anchored_above [simp]:
  "filter (\<lambda>d. anchor d = p) (out_of (checkDestructuringPattern env (p @ [st]) n)) = []"
  by (auto simp: filter_empty_conv dest!: check_placed)

lemma empty_array_iff:
  "ntype e = ''ArrayExpression'' \<and> attr e ''elements.length'' = Some (ANum 0) \<longleftrightarrow>
   e = ArrayExpression []"
  by (cases e) (auto simp: attr_def get_simps split: option.splits if_splits)

lemma fire_init:
  assumes "ok (fire env (VariableDeclarator ident (Some e) # VariableDeclaration k ds # anc)
             (p @ [Fld ''init'']) e)"
  shows "filter (\<lambda>d. anchor d = p)
      (out_of (fire env (VariableDeclarator ident (Some e) # VariableDeclaration k ds # anc)
             (p @ [Fld ''init'']) e)) =
     (if e = ArrayExpression [] \<and> get ident ''typeAnnotation'' = None
      then [\<lparr>anchor = p, messageId = ''variableDeclarationInitialisedToAnyWithoutAnnotation'',
             data = []\<rparr>]
      else [])"
  by (simp add: fire_out_of [OF assms] firing_order_eq listeners_def empty_array_iff)
     (auto simp: emptyArrayInit_listener_def get_simps attr_def)

lemma out_of_if: "out_of (if c then a else b) = (if c then out_of a else out_of b)"
  by simp

lemma out_of_reportVariableDeclarationInitialisedToAny:
  "out_of (reportVariableDeclarationInitialisedToAny env p (VariableDeclarator ident init)) =
     (case get ident ''typeAnnotation'' of
        None \<Rightarrow> [\<lparr>anchor = p, messageId = ''variableDeclarationInitialisedToAnyWithoutAnnotation'',
                  data = []\<rparr>]
      | Some ann \<Rightarrow>
          if allowVariableAnnotationFromAny env then []
          else (case get ann ''typeAnnotation'' of
                  None \<Rightarrow> []
                | Some ty \<Rightarrow>
                    if ntype ty = ''TSUnknownKeyword'' then []
                    else [\<lparr>anchor = p,
                           messageId = ''variableDeclarationInitialisedToAnyWithAnnotation'',
                           data = []\<rparr>]))"
  by (simp add: reportVariableDeclarationInitialisedToAny_def get_simps split: option.splits)

lemma fire_declarator:
  assumes "ok (fire env (VariableDeclaration k ds # anc) p (VariableDeclarator ident init))"
  shows "out_of (fire env (VariableDeclaration k ds # anc) p (VariableDeclarator ident init)) =
     (if for_of_head anc (butlast p) \<and> isAnyOrAnyArrayType env p
      then [\<lparr>anchor = p, messageId = ''loopVariableInitialisedToAny'', data = []\<rparr>] else []) @
     (if (k = ''let'' \<or> k = ''var'') \<and> get ident ''typeAnnotation'' = None
      then (case init of
              None \<Rightarrow> [\<lparr>anchor = p, messageId = ''letVariableWithNoInitialAndNoAnnotation'',
                        data = [(''kind'', Some k)]\<rparr>]
            | Some e \<Rightarrow>
                if isNullLiteral e \<or> isUndefinedIdentifier e
                then [\<lparr>anchor = p, messageId = ''letVariableInitialisedToNullishAndNoAnnotation'',
                       data = [(''kind'', Some k)]\<rparr>]
                else [])
      else [])"
  apply (simp add: fire_out_of [OF assms] firing_order_eq listeners_def attr_def get_simps
      for_of_head_def)
  apply (auto simp: forOf_listener_def letNoInit_listener_def letNullish_listener_def get_simps
      split: option.splits list.splits)
  done

section \<open>Properties of the rule\<close>

text \<open>
  C10: the walk over a destructuring pattern does not skip the hole of an elision. For
  \<^verbatim>\<open>const [, x] = v;\<close> with \<^verbatim>\<open>v\<close> of a concrete type, the listener of the array
  pattern passes the \<^verbatim>\<open>null\<close> element to \<^verbatim>\<open>checkDestructuringPattern\<close>, which reads
  its \<^verbatim>\<open>type\<close>: the run ends with a TypeError and no report.
\<close>

theorem elision_aborts_run:
  "lint concrete_env const_hole_x = Inl TypeError"
  by code_simp

text \<open>
  C5: the listener for the expression body of an arrow function also runs on a block
  body. In \<^verbatim>\<open>:not(TSESTree.BlockStatement)\<close> the negated selector asks for a node of type
  \<^verbatim>\<open>TSESTree\<close>, which no node has, so the negation holds of every body. For
  \<^verbatim>\<open>const f = () => {};\<close> with a checker that resolves the block to \<^verbatim>\<open>any\<close>, the run
  reports \<^verbatim>\<open>returnAny\<close> at the block.
\<close>

theorem arrow_listener_runs_on_block_body:
  "lint (typed_env [([Elt ''children'' 0, Elt ''declarations'' 0, Fld ''init'', Fld ''body''], Dynamic)]
       False)
     const_f_arrow_block =
   Inr [\<lparr>anchor = [Elt ''children'' 0, Elt ''declarations'' 0, Fld ''init'', Fld ''body''],
         messageId = ''returnAny'', data = []\<rparr>]"
  by code_simp

text \<open>
  C7: in a run that completes, the reports \<^verbatim>\<open>updateExpressionIsAny\<close> anchored at an
  update expression are exactly one if the checker resolves the operand to \<^verbatim>\<open>any\<close>, and
  none otherwise; in particular none when the operand is an array of \<^verbatim>\<open>any\<close>.
\<close>

theorem update_expression_scalar_only:
  assumes "lint env root = Inr out"
    and "locate [] root p = Some (anc, UpdateExpression arg)"
  shows "filter (\<lambda>d. messageId d = ''updateExpressionIsAny'' \<and> anchor d = p) out =
           (if checker env (p @ [Fld ''argument'']) = Dynamic
            then [\<lparr>anchor = p, messageId = ''updateExpressionIsAny'', data = []\<rparr>] else []) \<and>
         (checker env (p @ [Fld ''argument'']) = DynamicArray \<longrightarrow>
            (\<forall>d\<in>set out. \<not> (messageId d = ''updateExpressionIsAny'' \<and> anchor d = p)))"
proof -
  let ?P = "\<lambda>d. messageId d = ''updateExpressionIsAny'' \<and> anchor d = p"
  have other: "\<forall>q d. q \<noteq> p \<longrightarrow> placed q d \<longrightarrow> \<not> ?P d"
    by (auto simp: placed_def)
  have at: "filter ?P out = filter ?P (out_of (fire env anc p (UpdateExpression arg)))"
    and ok: "ok (fire env anc p (UpdateExpression arg))"
    using out_at_node [OF assms other] by blast+
  have "filter ?P (out_of (fire env anc p (UpdateExpression arg))) =
      filter (\<lambda>d. anchor d = p)
        (filter (\<lambda>d. messageId d = ''updateExpressionIsAny'')
          (out_of (fire env anc p (UpdateExpression arg))))"
    by (simp add: conj_commute)
  also have "\<dots> = (if checker env (p @ [Fld ''argument'']) = Dynamic
            then [\<lparr>anchor = p, messageId = ''updateExpressionIsAny'', data = []\<rparr>] else [])"
    by (simp add: fire_UpdateExpression [OF ok] isAnyType_def)
  finally have eq: "filter ?P out = (if checker env (p @ [Fld ''argument'']) = Dynamic
            then [\<lparr>anchor = p, messageId = ''updateExpressionIsAny'', data = []\<rparr>] else [])"
    using at by simp
  moreover have "\<forall>d\<in>set out. \<not> ?P d" if "checker env (p @ [Fld ''argument'']) = DynamicArray"
  proof -
    from eq that have "filter ?P out = []" by simp
    then show ?thesis by (simp add: filter_empty_conv)
  qed
  ultimately show ?thesis by blast
qed

theorem update_expression_scalar_only_witness:
  "lint (typed_env [([Elt ''children'' 0, Elt ''children'' 0, Fld ''argument''], Dynamic)] False) x_plus_plus =
     Inr [\<lparr>anchor = [Elt ''children'' 0, Elt ''children'' 0],
           messageId = ''updateExpressionIsAny'', data = []\<rparr>] \<and>
   filter (\<lambda>d. messageId d = ''updateExpressionIsAny'' \<and> anchor d = [Elt ''children'' 0, Elt ''children'' 0])
     [\<lparr>anchor = [Elt ''children'' 0, Elt ''children'' 0],
       messageId = ''updateExpressionIsAny'', data = []\<rparr>] =
     [\<lparr>anchor = [Elt ''children'' 0, Elt ''children'' 0],
       messageId = ''updateExpressionIsAny'', data = []\<rparr>]"
  using update_expression_scalar_only [OF lint_x_plus_plus locate_x_plus_plus]
  by (simp add: lint_x_plus_plus)



text \<open>
  C8: every report of a run that completes has one of the fourteen message identifiers of
  the rule and a value for each name the template of its message asks for:
  \<^verbatim>\<open>typeName\<close> for \<^verbatim>\<open>typeReferenceResolvesToAny\<close>, and \<^verbatim>\<open>kind\<close> for the two messages
  about \<^verbatim>\<open>let\<close> and \<^verbatim>\<open>var\<close> and for \<^verbatim>\<open>booleanTestIsAny\<close>, where it is one of
  \<^verbatim>\<open>if\<close>, \<^verbatim>\<open>while\<close>, \<^verbatim>\<open>do while\<close> and \<^verbatim>\<open>ternary\<close>.
\<close>

theorem reports_have_their_data:
  assumes "lint env root = Inr out" and "d \<in> set out"
  shows "messageId d \<in> set MessageIds \<and> length MessageIds = 14 \<and> distinct MessageIds \<and>
         (\<forall>k\<in>set (required_data (messageId d)). \<exists>v. map_of (data d) k = Some (Some v)) \<and>
         (messageId d = ''typeReferenceResolvesToAny'' \<longrightarrow>
            (\<exists>v. map_of (data d) ''typeName'' = Some (Some v))) \<and>
         (messageId d = ''letVariableInitialisedToNullishAndNoAnnotation'' \<or>
          messageId d = ''letVariableWithNoInitialAndNoAnnotation'' \<longrightarrow>
            (\<exists>v. map_of (data d) ''kind'' = Some (Some v))) \<and>
         (messageId d = ''booleanTestIsAny'' \<longrightarrow>
            map_of (data d) ''kind'' \<in>
              {Some (Some ''if''), Some (Some ''while''), Some (Some ''do while''),
               Some (Some ''ternary'')})"
proof -
  from lint_report_source [OF assms] obtain a q m where "d \<in> set (out_of (fire env a q m))"
    by blast
  then have wf: "well_formed d" by (rule fire_well_formed)
  then have req: "\<forall>k\<in>set (required_data (messageId d)). \<exists>v. map_of (data d) k = Some (Some v)"
    by (simp add: well_formed_def)
  have "messageId d = ''typeReferenceResolvesToAny'' \<longrightarrow>
      (\<exists>v. map_of (data d) ''typeName'' = Some (Some v))"
    using req by (auto simp: required_data_simps)
  moreover have "messageId d = ''letVariableInitialisedToNullishAndNoAnnotation'' \<or>
      messageId d = ''letVariableWithNoInitialAndNoAnnotation'' \<longrightarrow>
      (\<exists>v. map_of (data d) ''kind'' = Some (Some v))"
    using req by (auto simp: required_data_simps)
  ultimately show ?thesis
    using wf req MessageIds_distinct by (simp add: well_formed_def)
qed

theorem reports_have_their_data_witness:
  "messageId \<lparr>anchor = [Elt ''children'' 0, Elt ''declarations'' 0],
              messageId = ''letVariableWithNoInitialAndNoAnnotation'',
              data = [(''kind'', Some ''let'')]\<rparr> \<in> set MessageIds \<and>
   map_of (data \<lparr>anchor = [Elt ''children'' 0, Elt ''declarations'' 0],
              messageId = ''letVariableWithNoInitialAndNoAnnotation'',
              data = [(''kind'', Some ''let'')]\<rparr>) ''kind'' = Some (Some ''let'')"
  using reports_have_their_data [OF lint_let_x, of
      "\<lparr>anchor = [Elt ''children'' 0, Elt ''declarations'' 0],
        messageId = ''letVariableWithNoInitialAndNoAnnotation'',
        data = [(''kind'', Some ''let'')]\<rparr>"]
  by simp

end
